theory Spec2Isabelle
  imports Main
begin

section \<open>Reference linking of changelog-from-release (reflink.go)\<close>

text \<open>
  A shallow embedding of \<^verbatim>\<open>src/reflink.go\<close>. The source buffer \<^verbatim>\<open>l.src\<close> is a
  \<open>string\<close> (a list of bytes), offsets into it are natural numbers, the sentinel \<open>-1\<close>
  of the \<^verbatim>\<open>lastIndex...\<close> functions is kept as an \<open>int\<close>, and every run-time panic of
  Go (index out of range, slice bounds out of range, failed type assertion) and every
  explicit \<^verbatim>\<open>panic\<close> of the code (a repository URL that does not parse, a pattern that
  does not compile) is a value \<open>Inl p\<close> of the result type \<open>panic + 'a\<close>. The per-call
  field \<^verbatim>\<open>l.links\<close> is passed explicitly and returned updated.
\<close>

subsection \<open>Bytes, panics, slices\<close>

datatype panic = IndexOutOfRange | SliceBounds | TypeAssertion | UrlParse | RegexpCompile

definition byteLE :: "char \<Rightarrow> char \<Rightarrow> bool" where
  "byteLE a b = ((of_char a :: nat) \<le> of_char b)"

definition isDigit :: "char \<Rightarrow> bool" where
  "isDigit b = (byteLE (CHR ''0'') b \<and> byteLE b (CHR ''9''))"

definition isLower :: "char \<Rightarrow> bool" where
  "isLower b = (byteLE (CHR ''a'') b \<and> byteLE b (CHR ''z''))"

definition isUpper :: "char \<Rightarrow> bool" where
  "isUpper b = (byteLE (CHR ''A'') b \<and> byteLE b (CHR ''Z''))"

text \<open>\<^verbatim>\<open>isBoundary\<close>, lines 41-46.\<close>

definition isBoundary :: "char \<Rightarrow> bool" where
  "isBoundary b = (if isDigit b \<or> isLower b \<or> isUpper b then False else True)"

text \<open>\<^verbatim>\<open>isUserNameChar\<close>, lines 48-50.\<close>

definition isUserNameChar :: "char \<Rightarrow> bool" where
  "isUserNameChar b = (isDigit b \<or> isLower b \<or> isUpper b \<or> b = CHR ''-'')"

text \<open>The test \<^verbatim>\<open>'0' <= b && b <= '9' || 'a' <= b && b <= 'f'\<close> of \<^verbatim>\<open>linkCommitSHA\<close>.\<close>

definition isHexLower :: "char \<Rightarrow> bool" where
  "isHexLower b = (isDigit b \<or> (byteLE (CHR ''a'') b \<and> byteLE b (CHR ''f'')))"

text \<open>\<^verbatim>\<open>s[i]\<close>: a panic when the index is out of range.\<close>

definition byteAt :: "string \<Rightarrow> int \<Rightarrow> panic + char" where
  "byteAt s i = (if 0 \<le> i \<and> i < int (length s) then Inr (s ! nat i) else Inl IndexOutOfRange)"

text \<open>
  \<^verbatim>\<open>s[i:j]\<close> and \<^verbatim>\<open>s[i:]\<close>: a panic unless \<open>i \<le> j \<le> len s\<close>. (Go checks \<open>j\<close>
  against the capacity; the model takes the capacity of a buffer to be its length.)
\<close>

definition sliceBytes :: "string \<Rightarrow> nat \<Rightarrow> nat \<Rightarrow> panic + string" where
  "sliceBytes s i j =
     (if i \<le> j \<and> j \<le> length s then Inr (take (j - i) (drop i s)) else Inl SliceBounds)"

definition sliceFrom :: "string \<Rightarrow> nat \<Rightarrow> panic + string" where
  "sliceFrom s i = sliceBytes s i (length s)"

text \<open>\<^verbatim>\<open>bytes.HasPrefix\<close>.\<close>

definition hasPrefix :: "string \<Rightarrow> string \<Rightarrow> bool" where
  "hasPrefix s p = (take (length p) s = p)"

subsection \<open>The session and its spans\<close>

record refLink =
  link_start :: nat
  link_end :: nat
  link_text :: string

text \<open>
  \<^verbatim>\<open>extRef\<close>: the compiled pattern \<^verbatim>\<open>pat\<close> is determined by the prefix and the flag
  \<^verbatim>\<open>alphanumeric\<close> given to \<^verbatim>\<open>AddExtRef\<close>, so the record keeps the flag.
\<close>

record extRef =
  ext_prefix :: string
  ext_alphanumeric :: bool
  ext_url :: string

record Reflinker =
  repo :: string
  home :: string
  ext :: "extRef list"

text \<open>\<^verbatim>\<open>isBoundaryAt\<close>, lines 89-94.\<close>

definition isBoundaryAt :: "string \<Rightarrow> int \<Rightarrow> bool" where
  "isBoundaryAt src idx =
     (if idx < 0 \<or> int (length src) \<le> idx then True else isBoundary (src ! nat idx))"

subsection \<open>Issue references\<close>

text \<open>The loop of \<^verbatim>\<open>lastIndexIssueRef\<close> (lines 101-116), from the counter \<open>i\<close> on.\<close>

function issueRefLoop :: "string \<Rightarrow> nat \<Rightarrow> nat \<Rightarrow> nat \<Rightarrow> panic + int" where
  "issueRefLoop src bgn fin i =
     (if bgn + i < fin then
        (case byteAt src (int (bgn + i)) of
           Inl p \<Rightarrow> Inl p
         | Inr b \<Rightarrow>
             if isDigit b then issueRefLoop src bgn fin (i + 1)
             else if i = 1 \<or> \<not> isBoundary b then Inr (- 1)
             else Inr (int (bgn + i)))
      else if \<not> isBoundaryAt src (int fin) then Inr (- 1)
      else Inr (int fin))"
  by pat_completeness auto
termination
  by (relation "measure (\<lambda>(src, bgn, fin, i). fin - (bgn + i))") auto

declare issueRefLoop.simps [simp del]

definition lastIndexIssueRef :: "string \<Rightarrow> nat \<Rightarrow> nat \<Rightarrow> panic + int" where
  "lastIndexIssueRef src bgn fin =
     (if \<not> isBoundaryAt src (int bgn - 1) then Inr (- 1)
      else issueRefLoop src bgn fin 1)"

text \<open>\<^verbatim>\<open>linkIssueRef\<close>, lines 119-134: the new span list and the cursor to resume from.\<close>

definition linkIssueRef ::
  "Reflinker \<Rightarrow> string \<Rightarrow> refLink list \<Rightarrow> nat \<Rightarrow> nat \<Rightarrow> panic + (refLink list \<times> nat)" where
  "linkIssueRef l src links bgn fin =
     (case lastIndexIssueRef src bgn fin of
        Inl p \<Rightarrow> Inl p
      | Inr e \<Rightarrow>
          if e < 0 then Inr (links, bgn + 1)
          else
            (case sliceBytes src bgn (nat e) of
               Inl p \<Rightarrow> Inl p
             | Inr r \<Rightarrow>
                 (case sliceFrom r 1 of
                    Inl p \<Rightarrow> Inl p
                  | Inr num \<Rightarrow>
                      Inr (links @
                             [\<lparr>link_start = bgn, link_end = nat e,
                               link_text = ''['' @ r @ '']('' @ repo l @ ''/issues/'' @ num @ '')''\<rparr>],
                           nat e))))"

subsection \<open>User mentions\<close>

text \<open>The loop of \<^verbatim>\<open>lastIndexUserRef\<close> (lines 149-169), from the counter \<open>i\<close> on.\<close>

function userRefLoop :: "string \<Rightarrow> nat \<Rightarrow> nat \<Rightarrow> nat \<Rightarrow> panic + int" where
  "userRefLoop src bgn fin i =
     (if bgn + i < fin then
        (case byteAt src (int (bgn + i)) of
           Inl p \<Rightarrow> Inl p
         | Inr b \<Rightarrow>
             if isUserNameChar b then userRefLoop src bgn fin (i + 1)
             else if \<not> isBoundary b \<or> b = CHR ''/'' then Inr (- 1)
             else
               (case byteAt src (int (bgn + i) - 1) of
                  Inl p \<Rightarrow> Inl p
                | Inr c \<Rightarrow> if c = CHR ''-'' then Inr (- 1) else Inr (int (bgn + i))))
      else
        (case byteAt src (int fin - 1) of
           Inl p \<Rightarrow> Inl p
         | Inr c \<Rightarrow>
             if c = CHR ''-'' then Inr (- 1)
             else if fin < length src then
               (case byteAt src (int fin) of
                  Inl p \<Rightarrow> Inl p
                | Inr b \<Rightarrow> if \<not> isBoundary b \<or> b = CHR ''/'' then Inr (- 1) else Inr (int fin))
             else Inr (int fin)))"
  by pat_completeness auto
termination
  by (relation "measure (\<lambda>(src, bgn, fin, i). fin - (bgn + i))") auto

declare userRefLoop.simps [simp del]

definition lastIndexUserRef :: "string \<Rightarrow> nat \<Rightarrow> nat \<Rightarrow> panic + int" where
  "lastIndexUserRef src bgn fin =
     (if \<not> isBoundaryAt src (int bgn - 1) then Inr (- 1)
      else
        (case byteAt src (int (bgn + 1)) of
           Inl p \<Rightarrow> Inl p
         | Inr b \<Rightarrow>
             if \<not> isUserNameChar b \<or> b = CHR ''-'' then Inr (- 1)
             else userRefLoop src bgn fin 2))"

text \<open>\<^verbatim>\<open>linkUserRef\<close>, lines 172-186.\<close>

definition linkUserRef ::
  "Reflinker \<Rightarrow> string \<Rightarrow> refLink list \<Rightarrow> nat \<Rightarrow> nat \<Rightarrow> panic + (refLink list \<times> nat)" where
  "linkUserRef l src links bgn fin =
     (case lastIndexUserRef src bgn fin of
        Inl p \<Rightarrow> Inl p
      | Inr e \<Rightarrow>
          if e < 0 then Inr (links, bgn + 1)
          else
            (case sliceBytes src bgn (nat e) of
               Inl p \<Rightarrow> Inl p
             | Inr u \<Rightarrow>
                 (case sliceFrom u 1 of
                    Inl p \<Rightarrow> Inl p
                  | Inr name \<Rightarrow>
                      Inr (links @
                             [\<lparr>link_start = bgn, link_end = nat e,
                               link_text = ''['' @ u @ '']('' @ home l @ ''/'' @ name @ '')''\<rparr>],
                           nat e))))"

subsection \<open>Commit hashes\<close>

definition hashLen :: nat where
  "hashLen = 40"

text \<open>
  The loop of \<^verbatim>\<open>linkCommitSHA\<close> (lines 191-200): \<open>Some k\<close> is an early
  \<^verbatim>\<open>return k\<close>, \<open>None\<close> is the loop running to its end.
\<close>

function commitSHALoop :: "string \<Rightarrow> nat \<Rightarrow> nat \<Rightarrow> nat \<Rightarrow> panic + nat option" where
  "commitSHALoop src bgn fin i =
     (if i < hashLen then
        (if bgn + i \<ge> fin then Inr (Some (bgn + i))
         else
           (case byteAt src (int (bgn + i)) of
              Inl p \<Rightarrow> Inl p
            | Inr b \<Rightarrow>
                if isHexLower b then commitSHALoop src bgn fin (i + 1)
                else Inr (Some (bgn + i))))
      else Inr None)"
  by pat_completeness auto
termination
  by (relation "measure (\<lambda>(src, bgn, fin, i). hashLen - i)") auto

declare commitSHALoop.simps [simp del]

text \<open>\<^verbatim>\<open>linkCommitSHA\<close>, lines 190-212.\<close>

definition linkCommitSHA ::
  "Reflinker \<Rightarrow> string \<Rightarrow> refLink list \<Rightarrow> nat \<Rightarrow> nat \<Rightarrow> panic + (refLink list \<times> nat)" where
  "linkCommitSHA l src links bgn fin =
     (case commitSHALoop src bgn fin 1 of
        Inl p \<Rightarrow> Inl p
      | Inr (Some k) \<Rightarrow> Inr (links, k)
      | Inr None \<Rightarrow>
          if isBoundaryAt src (int bgn - 1) \<and> isBoundaryAt src (int (bgn + hashLen)) then
            (case sliceBytes src bgn (bgn + hashLen) of
               Inl p \<Rightarrow> Inl p
             | Inr h \<Rightarrow>
                 (case sliceBytes h 0 10 of
                    Inl p \<Rightarrow> Inl p
                  | Inr short \<Rightarrow>
                      Inr (links @
                             [\<lparr>link_start = bgn, link_end = bgn + hashLen,
                               link_text = ''[`'' @ short @ ''`]('' @ repo l @ ''/commit/'' @ h @ '')''\<rparr>],
                           bgn + hashLen)))
          else Inr (links, bgn + hashLen))"

subsection \<open>The scanner of a Text segment\<close>

text \<open>
  \<^verbatim>\<open>bytes.IndexAny\<close> for a set of ASCII characters: the index of the first byte of
  \<open>s\<close> that is one of \<open>chars\<close>; \<open>None\<close> is Go's \<open>-1\<close>.
\<close>

fun indexAny :: "string \<Rightarrow> string \<Rightarrow> nat option" where
  "indexAny [] chars = None"
| "indexAny (b # s) chars =
     (if b \<in> set chars then Some 0 else map_option Suc (indexAny s chars))"

text \<open>The \<^verbatim>\<open>switch s[i]\<close> of \<^verbatim>\<open>linkGitHubRefs\<close> (lines 224-232).\<close>

definition dispatchRef ::
  "Reflinker \<Rightarrow> string \<Rightarrow> refLink list \<Rightarrow> char \<Rightarrow> nat \<Rightarrow> nat \<Rightarrow> panic + (refLink list \<times> nat)" where
  "dispatchRef l src links c bgn fin =
     (if c = CHR ''#'' then linkIssueRef l src links bgn fin
      else if c = CHR ''@'' then linkUserRef l src links bgn fin
      else linkCommitSHA l src links bgn fin)"

lemma issueRefLoop_range:
  "1 \<le> i \<Longrightarrow> bgn < fin \<Longrightarrow>
   (case issueRefLoop src bgn fin i of Inl p \<Rightarrow> True | Inr e \<Rightarrow> e = - 1 \<or> int bgn < e)"
proof (induction src bgn fin i rule: issueRefLoop.induct)
  case (1 src bgn fin i)
  show ?case
  proof (cases "bgn + i < fin")
    case True
    show ?thesis
    proof (cases "byteAt src (int (bgn + i))")
      case (Inl p)
      with True show ?thesis by (subst issueRefLoop.simps) simp
    next
      case (Inr b)
      show ?thesis
      proof (cases "isDigit b")
        case u: True
        from "1.IH" [OF True Inr u] "1.prems" have
          "case issueRefLoop src bgn fin (i + 1) of Inl p \<Rightarrow> True | Inr e \<Rightarrow> e = - 1 \<or> int bgn < e"
          by simp
        with True Inr u show ?thesis by (subst issueRefLoop.simps) simp
      next
        case u: False
        with True Inr "1.prems" show ?thesis
          by (subst issueRefLoop.simps) simp
      qed
    qed
  next
    case False
    with "1.prems" show ?thesis
      by (subst issueRefLoop.simps) simp
  qed
qed

lemma issueRefLoop_progress:
  "issueRefLoop src bgn fin i = Inr e \<Longrightarrow> 1 \<le> i \<Longrightarrow> bgn < fin \<Longrightarrow> e = - 1 \<or> int bgn < e"
  using issueRefLoop_range [where i = i and bgn = bgn and fin = fin and src = src] by simp

lemma lastIndexIssueRef_progress:
  "lastIndexIssueRef src bgn fin = Inr e \<Longrightarrow> bgn < fin \<Longrightarrow> e = - 1 \<or> int bgn < e"
  unfolding lastIndexIssueRef_def
  by (cases "isBoundaryAt src (int bgn - 1)") (simp_all add: issueRefLoop_progress)

lemma linkIssueRef_progress:
  assumes "linkIssueRef l src links bgn fin = Inr (links', k)" and "bgn < fin"
  shows "bgn < k"
proof (cases "lastIndexIssueRef src bgn fin")
  case (Inl p)
  with assms(1) show ?thesis by (simp add: linkIssueRef_def)
next
  case (Inr e)
  from lastIndexIssueRef_progress [OF Inr assms(2)] have e: "e = - 1 \<or> int bgn < e" .
  show ?thesis
  proof (cases "e < 0")
    case True
    with assms(1) Inr show ?thesis by (simp add: linkIssueRef_def)
  next
    case False
    with e have "bgn < nat e" by linarith
    moreover from assms(1) Inr False have "k = nat e"
      by (simp add: linkIssueRef_def split: sum.splits)
    ultimately show ?thesis by simp
  qed
qed

lemma userRefLoop_range:
  "1 \<le> i \<Longrightarrow> bgn < fin \<Longrightarrow>
   (case userRefLoop src bgn fin i of Inl p \<Rightarrow> True | Inr e \<Rightarrow> e = - 1 \<or> int bgn < e)"
proof (induction src bgn fin i rule: userRefLoop.induct)
  case (1 src bgn fin i)
  show ?case
  proof (cases "bgn + i < fin")
    case True
    show ?thesis
    proof (cases "byteAt src (int (bgn + i))")
      case (Inl p)
      with True show ?thesis by (subst userRefLoop.simps) simp
    next
      case (Inr b)
      show ?thesis
      proof (cases "isUserNameChar b")
        case u: True
        from "1.IH" [OF True Inr u] "1.prems" have
          "case userRefLoop src bgn fin (i + 1) of Inl p \<Rightarrow> True | Inr e \<Rightarrow> e = - 1 \<or> int bgn < e"
          by simp
        with True Inr u show ?thesis by (subst userRefLoop.simps) simp
      next
        case u: False
        with True Inr "1.prems" show ?thesis
          by (subst userRefLoop.simps) (simp split: sum.split)
      qed
    qed
  next
    case False
    with "1.prems" show ?thesis
      by (subst userRefLoop.simps) (simp split: sum.split)
  qed
qed

lemma userRefLoop_progress:
  "userRefLoop src bgn fin i = Inr e \<Longrightarrow> 1 \<le> i \<Longrightarrow> bgn < fin \<Longrightarrow> e = - 1 \<or> int bgn < e"
  using userRefLoop_range [where i = i and bgn = bgn and fin = fin and src = src] by simp

lemma lastIndexUserRef_progress:
  assumes "lastIndexUserRef src bgn fin = Inr e" and "bgn < fin"
  shows "e = - 1 \<or> int bgn < e"
proof (cases "isBoundaryAt src (int bgn - 1)")
  case False
  with assms(1) show ?thesis by (simp add: lastIndexUserRef_def)
next
  case True
  show ?thesis
  proof (cases "byteAt src (int (bgn + 1))")
    case (Inl p)
    with assms(1) True show ?thesis by (simp add: lastIndexUserRef_def)
  next
    case (Inr b)
    show ?thesis
    proof (cases "\<not> isUserNameChar b \<or> b = CHR ''-''")
      case c: True
      with assms(1) True Inr show ?thesis by (simp add: lastIndexUserRef_def)
    next
      case c: False
      with assms(1) True Inr have "userRefLoop src bgn fin 2 = Inr e"
        by (simp add: lastIndexUserRef_def)
      from userRefLoop_progress [OF this _ assms(2)] show ?thesis by simp
    qed
  qed
qed

lemma linkUserRef_progress:
  assumes "linkUserRef l src links bgn fin = Inr (links', k)" and "bgn < fin"
  shows "bgn < k"
proof (cases "lastIndexUserRef src bgn fin")
  case (Inl p)
  with assms(1) show ?thesis by (simp add: linkUserRef_def)
next
  case (Inr e)
  from lastIndexUserRef_progress [OF Inr assms(2)] have e: "e = - 1 \<or> int bgn < e" .
  show ?thesis
  proof (cases "e < 0")
    case True
    with assms(1) Inr show ?thesis by (simp add: linkUserRef_def)
  next
    case False
    with e have "bgn < nat e" by linarith
    moreover from assms(1) Inr False have "k = nat e"
      by (simp add: linkUserRef_def split: sum.splits)
    ultimately show ?thesis by simp
  qed
qed

lemma commitSHALoop_range:
  "1 \<le> i \<Longrightarrow>
   (case commitSHALoop src bgn fin i of Inl p \<Rightarrow> True | Inr None \<Rightarrow> True | Inr (Some k) \<Rightarrow> bgn < k)"
proof (induction src bgn fin i rule: commitSHALoop.induct)
  case (1 src bgn fin i)
  show ?case
  proof (cases "i < hashLen \<and> \<not> fin \<le> bgn + i")
    case False
    with "1.prems" show ?thesis by (subst commitSHALoop.simps) auto
  next
    case True
    show ?thesis
    proof (cases "byteAt src (int (bgn + i))")
      case (Inl p)
      with True show ?thesis by (subst commitSHALoop.simps) simp
    next
      case (Inr b)
      show ?thesis
      proof (cases "isHexLower b")
        case h: True
        from True have t1: "i < hashLen" and t2: "\<not> fin \<le> bgn + i" by simp_all
        from "1.IH" [OF t1 t2 Inr h] have
          "case commitSHALoop src bgn fin (i + 1) of Inl p \<Rightarrow> True | Inr None \<Rightarrow> True
             | Inr (Some k) \<Rightarrow> bgn < k"
          by simp
        with True Inr h show ?thesis by (subst commitSHALoop.simps) simp
      next
        case h: False
        with True Inr "1.prems" show ?thesis by (subst commitSHALoop.simps) simp
      qed
    qed
  qed
qed

lemma commitSHALoop_progress:
  "commitSHALoop src bgn fin i = Inr (Some k) \<Longrightarrow> 1 \<le> i \<Longrightarrow> bgn < k"
  using commitSHALoop_range [where i = i and bgn = bgn and fin = fin and src = src] by simp

lemma linkCommitSHA_progress:
  assumes "linkCommitSHA l src links bgn fin = Inr (links', k)"
  shows "bgn < k"
proof (cases "commitSHALoop src bgn fin 1")
  case (Inl p)
  with assms show ?thesis by (simp add: linkCommitSHA_def)
next
  case (Inr r)
  show ?thesis
  proof (cases r)
    case (Some k')
    with Inr assms have "k = k'" by (simp add: linkCommitSHA_def)
    with commitSHALoop_progress [of src bgn fin 1 k'] Inr Some show ?thesis by simp
  next
    case None
    with Inr assms have "k = bgn + hashLen"
      by (simp add: linkCommitSHA_def split: if_splits sum.splits)
    then show ?thesis by (simp add: hashLen_def)
  qed
qed

lemma dispatchRef_progress:
  "dispatchRef l src links c bgn fin = Inr (links', k) \<Longrightarrow> bgn < fin \<Longrightarrow> bgn < k"
  unfolding dispatchRef_def
  using linkIssueRef_progress [of l src links bgn fin links' k]
    linkUserRef_progress [of l src links bgn fin links' k]
    linkCommitSHA_progress [of l src links bgn fin links' k]
  by (simp split: if_splits)

text \<open>
  \<^verbatim>\<open>linkGitHubRefs\<close>, lines 214-234: the loop from the cursor \<open>off\<close> (Go's \<^verbatim>\<open>o\<close>) on, for the
  limit \<open>Stop\<close> of the segment. Go's condition \<^verbatim>\<open>o < Stop-1\<close> on integers is \<open>off + 1 < Stop\<close>.
\<close>

function linkGitHubRefsLoop ::
  "Reflinker \<Rightarrow> string \<Rightarrow> nat \<Rightarrow> refLink list \<Rightarrow> nat \<Rightarrow> panic + refLink list" where
  "linkGitHubRefsLoop l src Stop links off =
     (if off + 1 < Stop then
        (case sliceBytes src off Stop of
           Inl p \<Rightarrow> Inl p
         | Inr s \<Rightarrow>
             (case indexAny s ''#@1234567890abcdef'' of
                None \<Rightarrow> Inr links
              | Some i \<Rightarrow>
                  if length s - 1 \<le> i then Inr links
                  else
                    (case dispatchRef l src links (s ! i) (off + i) Stop of
                       Inl p \<Rightarrow> Inl p
                     | Inr (links', k) \<Rightarrow> linkGitHubRefsLoop l src Stop links' k)))
      else Inr links)"
  by pat_completeness auto
termination
proof (relation "measure (\<lambda>(l, src, Stop, links, off). Stop - off)", goal_cases)
  case 1
  show ?case by simp
next
  case (2 l src Stop links off s i r links' k)
  from 2(2) have len: "length s = Stop - off"
    by (auto simp: sliceBytes_def split: if_splits)
  with 2(1,4) have "off + i < Stop" by simp
  with 2(5,6) have "off + i < k"
    using dispatchRef_progress [of l src links "s ! i" "off + i" Stop links' k] by simp
  with 2(1) show ?case by simp
qed

declare linkGitHubRefsLoop.simps [simp del]

definition linkGitHubRefs ::
  "Reflinker \<Rightarrow> string \<Rightarrow> refLink list \<Rightarrow> nat \<Rightarrow> nat \<Rightarrow> panic + refLink list" where
  "linkGitHubRefs l src links Start Stop = linkGitHubRefsLoop l src Stop links Start"

subsection \<open>External references\<close>

text \<open>
  \<^verbatim>\<open>AddExtRef\<close> (lines 238-246) compiles \<^verbatim>\<open>\b<prefix>\d+\b\<close>, or
  \<^verbatim>\<open>\b<prefix>[a-zA-Z0-9_]+\<close> when \<^verbatim>\<open>alphanumeric\<close> is set, with Go's package regexp,
  which is not code of this repository. The prefix is pasted into the pattern as it is,
  without \<^verbatim>\<open>regexp.QuoteMeta\<close>: a prefix that holds a metacharacter is a regular
  expression of its own (\<^verbatim>\<open>a.c\<close> matches \<^verbatim>\<open>abc\<close>). \<open>literalPrefix\<close> tells the prefixes
  that stand for themselves: printable ASCII bytes, none of them a metacharacter (as
  \<^verbatim>\<open>GH-\<close>).

  \<open>matchAt\<close> and \<open>FindIndex\<close> below are the meaning of the two patterns for a prefix with
  \<open>literalPrefix\<close>, and only for such a prefix: \<^verbatim>\<open>\b\<close> is the ASCII word boundary (a
  word character is one of \<^verbatim>\<open>[0-9A-Za-z_]\<close>, the two ends of the searched text count as
  non-word), \<^verbatim>\<open>\d\<close> is \<^verbatim>\<open>[0-9]\<close>, the repetition is greedy, and \<^verbatim>\<open>FindIndex\<close>
  returns the leftmost match. In \<^verbatim>\<open>\d+\b\<close> only the longest run of digits can be followed
  by a word boundary. Every statement about a pattern below is made for a literal prefix.
\<close>

definition isMeta :: "char \<Rightarrow> bool" where
  "isMeta b = (b \<in> set (CHR 0x5C # ''.+*?()|[]{}^$''))"

definition literalPrefix :: "string \<Rightarrow> bool" where
  "literalPrefix p =
     list_all (\<lambda>b. byteLE (CHR 0x20) b \<and> byteLE b (CHR 0x7E) \<and> \<not> isMeta b) p"

definition isWordChar :: "char \<Rightarrow> bool" where
  "isWordChar b = (isDigit b \<or> isLower b \<or> isUpper b \<or> b = CHR ''_'')"

definition wordBoundary :: "string \<Rightarrow> nat \<Rightarrow> bool" where
  "wordBoundary w i =
     ((0 < i \<and> isWordChar (w ! (i - 1))) \<noteq> (i < length w \<and> isWordChar (w ! i)))"

text \<open>A match of the pattern of \<open>x\<close> in \<open>w\<close> that starts at \<open>s\<close>: its end.\<close>

definition matchAt :: "extRef \<Rightarrow> string \<Rightarrow> nat \<Rightarrow> nat option" where
  "matchAt x w s =
     (let p = ext_prefix x;
          t = s + length p;
          run = takeWhile (if ext_alphanumeric x then isWordChar else isDigit) (drop t w);
          e = t + length run
      in if wordBoundary w s \<and> take (length p) (drop s w) = p \<and> run \<noteq> []
            \<and> (ext_alphanumeric x \<or> wordBoundary w e)
         then Some e else None)"

fun findIndexFrom :: "extRef \<Rightarrow> string \<Rightarrow> nat \<Rightarrow> nat \<Rightarrow> (nat \<times> nat) option" where
  "findIndexFrom x w s 0 = None"
| "findIndexFrom x w s (Suc n) =
     (case matchAt x w s of
        Some e \<Rightarrow> Some (s, e)
      | None \<Rightarrow> findIndexFrom x w (Suc s) n)"

text \<open>\<^verbatim>\<open>ext.pat.FindIndex(src)\<close>: the start positions \<open>0, ..., len w\<close> from the left.\<close>

definition FindIndex :: "extRef \<Rightarrow> string \<Rightarrow> (nat \<times> nat) option" where
  "FindIndex x w = findIndexFrom x w 0 (Suc (length w))"

text \<open>\<^verbatim>\<open>strings.ReplaceAll\<close> for a non-empty \<open>old\<close> (here always \<^verbatim>\<open><num>\<close>).\<close>

function replaceAll :: "string \<Rightarrow> string \<Rightarrow> string \<Rightarrow> string" where
  "replaceAll s old new =
     (if s = [] \<or> old = [] then s
      else if hasPrefix s old then new @ replaceAll (drop (length old) s) old new
      else hd s # replaceAll (tl s) old new)"
  by pat_completeness auto
termination
  by (relation "measure (\<lambda>(s, old, new). length s)") auto

declare replaceAll.simps [simp del]



text \<open>
  The loop \<^verbatim>\<open>for _, ext := range l.ext\<close> of \<^verbatim>\<open>linkExtRef\<close> (lines 250-264) over the
  window \<open>w = src[start:end]\<close>.
\<close>

fun linkExtRefPats ::
  "extRef list \<Rightarrow> string \<Rightarrow> refLink list \<Rightarrow> nat \<Rightarrow> nat \<Rightarrow> panic + (refLink list \<times> nat)" where
  "linkExtRefPats [] w links start fin = Inr (links, fin)"
| "linkExtRefPats (x # xs) w links start fin =
     (case FindIndex x w of
        None \<Rightarrow> linkExtRefPats xs w links start fin
      | Some (s, e) \<Rightarrow>
          (case sliceBytes w s e of
             Inl p \<Rightarrow> Inl p
           | Inr ref \<Rightarrow>
               (case sliceFrom ref (length (ext_prefix x)) of
                  Inl p \<Rightarrow> Inl p
                | Inr num \<Rightarrow>
                    Inr (links @
                           [\<lparr>link_start = start + s, link_end = start + e,
                             link_text = ''['' @ ref @ '']('' @
                               replaceAll (ext_url x) ''<num>'' num @ '')''\<rparr>],
                         start + e))))"

text \<open>\<^verbatim>\<open>linkExtRef\<close>, lines 248-265.\<close>

definition linkExtRef ::
  "Reflinker \<Rightarrow> string \<Rightarrow> refLink list \<Rightarrow> nat \<Rightarrow> nat \<Rightarrow> panic + (refLink list \<times> nat)" where
  "linkExtRef l src links start fin =
     (case sliceBytes src start fin of
        Inl p \<Rightarrow> Inl p
      | Inr w \<Rightarrow> linkExtRefPats (ext l) w links start fin)"

lemma findIndexFrom_Some:
  "findIndexFrom x w s n = Some (s', e) \<Longrightarrow> s \<le> s' \<and> s' < s + n \<and> matchAt x w s' = Some e"
proof (induction n arbitrary: s)
  case 0
  then show ?case by simp
next
  case (Suc n)
  show ?case
  proof (cases "matchAt x w s")
    case None
    with Suc.prems have "findIndexFrom x w (Suc s) n = Some (s', e)" by simp
    from Suc.IH [OF this] show ?thesis by simp
  next
    case (Some e')
    with Suc.prems show ?thesis by simp
  qed
qed

lemma matchAt_end: "matchAt x w s = Some e \<Longrightarrow> s + length (ext_prefix x) < e"
  by (auto simp: matchAt_def Let_def length_greater_0_conv [symmetric]
      simp del: length_greater_0_conv split: if_splits)

lemma FindIndex_bounds: "FindIndex x w = Some (s, e) \<Longrightarrow> s < e"
  unfolding FindIndex_def
  using findIndexFrom_Some [of x w 0 "Suc (length w)" s e] matchAt_end [of x w s e] by simp

lemma linkExtRefPats_progress:
  "linkExtRefPats xs w links start fin = Inr (links', k) \<Longrightarrow> start < fin \<Longrightarrow> start < k"
proof (induction xs)
  case Nil
  then show ?case by simp
next
  case (Cons x xs)
  show ?case
  proof (cases "FindIndex x w")
    case None
    with Cons show ?thesis by simp
  next
    case (Some se)
    obtain s e where se: "se = (s, e)" by (cases se)
    from Some se have "s < e" by (simp add: FindIndex_bounds)
    moreover from Cons.prems(1) Some se have "k = start + e"
      by (simp split: sum.splits)
    ultimately show ?thesis by simp
  qed
qed

lemma linkExtRef_progress:
  "linkExtRef l src links start fin = Inr (links', k) \<Longrightarrow> start < fin \<Longrightarrow> start < k"
  unfolding linkExtRef_def
  using linkExtRefPats_progress [of "ext l" _ links start fin links' k]
  by (simp split: sum.splits)

text \<open>\<^verbatim>\<open>linkExtRefs\<close>, lines 267-272: the loop from the cursor \<open>off\<close> on.\<close>

function linkExtRefsLoop ::
  "Reflinker \<Rightarrow> string \<Rightarrow> nat \<Rightarrow> refLink list \<Rightarrow> nat \<Rightarrow> panic + refLink list" where
  "linkExtRefsLoop l src Stop links off =
     (if off + 1 < Stop then
        (case linkExtRef l src links off Stop of
           Inl p \<Rightarrow> Inl p
         | Inr (links', k) \<Rightarrow> linkExtRefsLoop l src Stop links' k)
      else Inr links)"
  by pat_completeness auto
termination
proof (relation "measure (\<lambda>(l, src, Stop, links, off). Stop - off)", goal_cases)
  case 1
  show ?case by simp
next
  case (2 l src Stop links off r links' k)
  from 2(1) have "off < Stop" by simp
  with 2(2,3) have "off < k"
    using linkExtRef_progress [of l src links off Stop links' k] by simp
  with 2(1) show ?case by simp
qed

declare linkExtRefsLoop.simps [simp del]

definition linkExtRefs ::
  "Reflinker \<Rightarrow> string \<Rightarrow> refLink list \<Rightarrow> nat \<Rightarrow> nat \<Rightarrow> panic + refLink list" where
  "linkExtRefs l src links Start Stop = linkExtRefsLoop l src Stop links Start"

subsection \<open>URLs of AutoLink nodes\<close>

definition isXDigit :: "char \<Rightarrow> bool" where
  "isXDigit b =
     (isDigit b \<or> (byteLE (CHR ''a'') b \<and> byteLE b (CHR ''f''))
        \<or> (byteLE (CHR ''A'') b \<and> byteLE b (CHR ''F'')))"

text \<open>
  The common head \<^verbatim>\<open>^/([^/]+/[^/]+)\<close> of the two path patterns (lines 276 and 304):
  the slug and what follows it. A class \<^verbatim>\<open>[^/]\<close> cannot cross a \<^verbatim>\<open>/\<close>, so the
  split is the only one possible.
\<close>

definition splitSlug :: "string \<Rightarrow> (string \<times> string) option" where
  "splitSlug path =
     (case path of
        [] \<Rightarrow> None
      | c # r1 \<Rightarrow>
          if c \<noteq> CHR ''/'' then None
          else
            (let owner = takeWhile (\<lambda>b. b \<noteq> CHR ''/'') r1;
                 r2 = dropWhile (\<lambda>b. b \<noteq> CHR ''/'') r1
             in if owner = [] \<or> r2 = [] then None
                else
                  (let name = takeWhile (\<lambda>b. b \<noteq> CHR ''/'') (tl r2);
                       r4 = dropWhile (\<lambda>b. b \<noteq> CHR ''/'') (tl r2)
                   in if name = [] then None else Some (owner @ ''/'' @ name, r4))))"

text \<open>
  \<^verbatim>\<open>reGitHubCommitPath.FindSubmatch\<close> for
  \<^verbatim>\<open>^/([^/]+/[^/]+)/commit/([[:xdigit:]]{7,})$\<close>: the groups 1 and 2.
\<close>

definition matchCommitPath :: "string \<Rightarrow> (string \<times> string) option" where
  "matchCommitPath path =
     (case splitSlug path of
        None \<Rightarrow> None
      | Some (slug, r4) \<Rightarrow>
          if hasPrefix r4 ''/commit/'' then
            (let h = drop 8 r4
             in if 7 \<le> length h \<and> list_all isXDigit h then Some (slug, h) else None)
          else None)"

text \<open>
  \<^verbatim>\<open>reGitHubIssuePath.FindSubmatch\<close> for
  \<^verbatim>\<open>^/([^/]+/[^/]+)/(?:pull|issues)/(\d+)(#.+)?$\<close>: the groups 1, 2 and 3, the last one
  empty when it takes no part in the match. The dot matches every byte but a newline.
\<close>

definition matchIssuePath :: "string \<Rightarrow> (string \<times> string \<times> string) option" where
  "matchIssuePath path =
     (case splitSlug path of
        None \<Rightarrow> None
      | Some (slug, r4) \<Rightarrow>
          (case (if hasPrefix r4 ''/pull/'' then Some (drop 6 r4)
                 else if hasPrefix r4 ''/issues/'' then Some (drop 8 r4)
                 else None) of
             None \<Rightarrow> None
           | Some r5 \<Rightarrow>
               (let num = takeWhile isDigit r5;
                    frag = dropWhile isDigit r5
                in if num = [] then None
                   else if frag = [] then Some (slug, num, [])
                   else if hd frag = CHR ''#'' \<and> tl frag \<noteq> []
                           \<and> list_all (\<lambda>b. b \<noteq> CHR 0x0A) (tl frag)
                        then Some (slug, num, frag)
                   else None)))"

text \<open>\<^verbatim>\<open>linkCommitURL\<close>, lines 278-296; \<open>slug\<close> and \<open>hash\<close> are \<^verbatim>\<open>m[1]\<close> and \<^verbatim>\<open>m[2]\<close>.\<close>

definition linkCommitURL ::
  "Reflinker \<Rightarrow> refLink list \<Rightarrow> string \<Rightarrow> string \<Rightarrow> string \<Rightarrow> nat \<Rightarrow> nat \<Rightarrow> refLink list" where
  "linkCommitURL l links slug hash url start fin =
     (let hash' = (if length hash > 10 then take 10 hash else hash);
          replaced =
            (if hasPrefix url (repo l) then ''[`'' @ hash' @ ''`]('' @ url @ '')''
             else ''['' @ slug @ ''@`'' @ hash' @ ''`]('' @ url @ '')'')
      in links @ [\<lparr>link_start = start, link_end = fin, link_text = replaced\<rparr>])"

text \<open>\<^verbatim>\<open>linkIssueURL\<close>, lines 306-331; \<open>slug\<close>, \<open>num\<close>, \<open>frag\<close> are \<^verbatim>\<open>m[1]\<close> to \<^verbatim>\<open>m[3]\<close>.\<close>

definition linkIssueURL ::
  "Reflinker \<Rightarrow> refLink list \<Rightarrow> string \<Rightarrow> string \<Rightarrow> string \<Rightarrow> string \<Rightarrow> nat \<Rightarrow> nat
     \<Rightarrow> refLink list" where
  "linkIssueURL l links slug num frag url start fin =
     (let note =
            (if length frag > 0 then
               (if hasPrefix frag ''#pullrequestreview-'' then '' (review)'' else '' (comment)'')
             else []);
          replaced =
            (if hasPrefix url (repo l) then ''[#'' @ num @ note @ '']('' @ url @ '')''
             else ''['' @ slug @ ''#'' @ num @ note @ '']('' @ url @ '')'')
      in links @ [\<lparr>link_start = start, link_end = fin, link_text = replaced\<rparr>])"

text \<open>\<^verbatim>\<open>bytes.Index\<close>: the first position of \<open>sep\<close> in \<open>s\<close>; \<open>None\<close> is Go's \<open>-1\<close>.\<close>

fun bytesIndex :: "string \<Rightarrow> string \<Rightarrow> nat option" where
  "bytesIndex [] sep = (if sep = [] then Some 0 else None)"
| "bytesIndex (c # s) sep =
     (if hasPrefix (c # s) sep then Some 0 else map_option Suc (bytesIndex s sep))"

subsection \<open>The parse tree and the walk\<close>

text \<open>
  The Markdown parser (goldmark) is a library, not code of this repository: \<^verbatim>\<open>Link\<close>
  receives its tree. A node is one of the kinds the walker of \<^verbatim>\<open>Link\<close> (lines
  402-420) tells apart: a Text node with its segment \<open>Start\<close>, \<open>Stop\<close>; a CodeSpan and a
  Link with their children; an AutoLink with the bytes \<^verbatim>\<open>n.URL(l.src)\<close> returns and
  the offset in the buffer at which the parser found it (the start of the segment of the
  node's value); any other node (Document, Paragraph, Emphasis, ...) with its children.
  The code never reads the offset of an AutoLink: \<^verbatim>\<open>linkURL\<close> searches the buffer for
  the bytes of the URL instead.
\<close>

datatype node =
    TextNode nat nat
  | CodeSpanNode "node list"
  | LinkNode "node list"
  | AutoLinkNode string nat
  | OtherNode "node list"

text \<open>
  Lines 334-341 of \<^verbatim>\<open>linkURL\<close>: where the search for the URL starts. The assertion
  \<^verbatim>\<open>p.(*ast.Text)\<close> has one result, so it panics on a previous sibling of another kind.
\<close>

fun prevStop :: "node option \<Rightarrow> panic + nat" where
  "prevStop None = Inr 0"
| "prevStop (Some (TextNode Start Stop)) = Inr Stop"
| "prevStop (Some n) = Inl TypeAssertion"

text \<open>\<^verbatim>\<open>linkURL\<close>, lines 333-375, for the previous sibling \<open>prev\<close> and the URL of the node.\<close>

definition linkURL ::
  "Reflinker \<Rightarrow> string \<Rightarrow> refLink list \<Rightarrow> node option \<Rightarrow> string \<Rightarrow> panic + refLink list" where
  "linkURL l src links prev url =
     (case prevStop prev of
        Inl p \<Rightarrow> Inl p
      | Inr start0 \<Rightarrow>
          if \<not> hasPrefix url (home l) then Inr links
          else
            (case sliceFrom src start0 of
               Inl p \<Rightarrow> Inl p
             | Inr rest \<Rightarrow>
                 (case bytesIndex rest url of
                    None \<Rightarrow> Inr links
                  | Some offset \<Rightarrow>
                      (let start = start0 + offset;
                           fin = start + length url
                       in if start \<ge> length src \<or> fin > length src then Inr links
                          else if start > 0 \<and> src ! (start - 1) = CHR ''<''
                                  \<and> fin < length src \<and> src ! fin = CHR ''>''
                               then Inr links
                          else
                            (let path = drop (length (home l)) url
                             in case matchCommitPath path of
                                  Some (slug, hash) \<Rightarrow>
                                    Inr (linkCommitURL l links slug hash url start fin)
                                | None \<Rightarrow>
                                    (case matchIssuePath path of
                                       Some (slug, num, frag) \<Rightarrow>
                                         Inr (linkIssueURL l links slug num frag url start fin)
                                     | None \<Rightarrow> Inr links))))))"

text \<open>
  \<^verbatim>\<open>ast.Walk\<close> with the walker of lines 402-420: \<open>walk\<close> enters one node, whose previous
  sibling is \<open>prev\<close>; \<open>walkChildren\<close> visits a list of siblings from left to right. The
  children of a CodeSpan, a Link and an AutoLink are skipped.
\<close>

fun walk :: "Reflinker \<Rightarrow> string \<Rightarrow> node option \<Rightarrow> node \<Rightarrow> refLink list \<Rightarrow> panic + refLink list"
  and walkChildren ::
    "Reflinker \<Rightarrow> string \<Rightarrow> node option \<Rightarrow> node list \<Rightarrow> refLink list \<Rightarrow> panic + refLink list" where
  "walk l src prev (CodeSpanNode cs) links = Inr links"
| "walk l src prev (LinkNode cs) links = Inr links"
| "walk l src prev (AutoLinkNode url pos) links = linkURL l src links prev url"
| "walk l src prev (TextNode Start Stop) links =
     (case linkGitHubRefs l src links Start Stop of
        Inl p \<Rightarrow> Inl p
      | Inr links' \<Rightarrow> linkExtRefs l src links' Start Stop)"
| "walk l src prev (OtherNode cs) links = walkChildren l src None cs links"
| "walkChildren l src prev [] links = Inr links"
| "walkChildren l src prev (c # cs) links =
     (case walk l src prev c links of
        Inl p \<Rightarrow> Inl p
      | Inr links' \<Rightarrow> walkChildren l src (Some c) cs links')"

subsection \<open>Rebuilding the text\<close>

text \<open>
  The loop of \<^verbatim>\<open>buildLinkedText\<close> (lines 380-388): \<open>i\<close> is the source position reached
  and \<open>b\<close> the text built so far.
\<close>

fun buildLoop :: "string \<Rightarrow> refLink list \<Rightarrow> nat \<Rightarrow> string \<Rightarrow> panic + string" where
  "buildLoop src [] i b =
     (case sliceFrom src i of Inl p \<Rightarrow> Inl p | Inr s \<Rightarrow> Inr (b @ s))"
| "buildLoop src (r # rs) i b =
     (case sliceBytes src i (link_start r) of
        Inl p \<Rightarrow> Inl p
      | Inr s \<Rightarrow> buildLoop src rs (link_end r) (b @ s @ link_text r))"

text \<open>
  \<^verbatim>\<open>buildLinkedText\<close>, lines 377-389. \<^verbatim>\<open>sort.Sort\<close> orders the spans by \<open>start\<close>; it
  is modelled by the stable sort (Go does not fix the order of spans of equal start).
\<close>

definition buildLinkedText :: "string \<Rightarrow> refLink list \<Rightarrow> panic + string" where
  "buildLinkedText src links = buildLoop src (sort_key link_start links) 0 []"

definition isLinkDetected :: "refLink list \<Rightarrow> bool" where
  "isLinkDetected links = (length links > 0)"

text \<open>
  \<^verbatim>\<open>Link\<close>, lines 396-427. \<open>t\<close> is the tree the parser returns for \<open>input\<close>; the walk
  starts at its root, which has no sibling, with no span.
\<close>

definition Link :: "Reflinker \<Rightarrow> node \<Rightarrow> string \<Rightarrow> panic + string" where
  "Link l t input =
     (case walk l input None t [] of
        Inl p \<Rightarrow> Inl p
      | Inr links \<Rightarrow>
          if \<not> isLinkDetected links then Inr input else buildLinkedText input links)"


section \<open>The vocabulary of the claims\<close>

text \<open>
  The default pattern of the session for the repository \<^verbatim>\<open>https://github.com/o/r\<close>, and
  a second pattern with an alphanumeric suffix, as a caller registers it with
  \<^verbatim>\<open>AddExtRef\<close>.
\<close>

definition ghRef :: extRef where
  "ghRef = \<lparr>ext_prefix = ''GH-'', ext_alphanumeric = False,
            ext_url = ''https://github.com/o/r/issues/<num>''\<rparr>"


text \<open>
  The session of the spec's examples: what \<^verbatim>\<open>NewReflinker("https://github.com/o/r")\<close>
  returns. For this URL \<^verbatim>\<open>u.String()\<close> is \<^verbatim>\<open>https://github.com\<close> after the path is
  cleared, and the pattern of \<^verbatim>\<open>GH-\<close> compiles (lemma \<open>NewReflinker_example\<close>).
\<close>

definition exampleSession :: Reflinker where
  "exampleSession =
     \<lparr>repo = ''https://github.com/o/r'', home = ''https://github.com'', ext = [ghRef]\<rparr>"

text \<open>The prefix of the pattern \<open>x\<close> is literal: \<open>matchAt\<close> gives the meaning of \<open>x\<close>.\<close>

definition literalExt :: "extRef \<Rightarrow> bool" where
  "literalExt x = literalPrefix (ext_prefix x)"

text \<open>
  The tree of a document that is one paragraph of plain text of \<open>n\<close> bytes: a Document,
  a Paragraph, one Text node with the segment \<open>[0, n)\<close>.
\<close>

definition plainDoc :: "nat \<Rightarrow> node" where
  "plainDoc n = OtherNode [OtherNode [TextNode 0 n]]"

text \<open>A document that is one paragraph with the inline nodes \<open>ns\<close>.\<close>

definition paragraphDoc :: "node list \<Rightarrow> node" where
  "paragraphDoc ns = OtherNode [OtherNode ns]"

text \<open>The suffix a match \<open>(s, e)\<close> of the pattern of \<open>x\<close> captures in \<open>w\<close>.\<close>

definition capturedSuffix :: "extRef \<Rightarrow> string \<Rightarrow> nat \<Rightarrow> nat \<Rightarrow> string" where
  "capturedSuffix x w s e =
     take (e - (s + length (ext_prefix x))) (drop (s + length (ext_prefix x)) w)"

text \<open>The bytes a suffix of the pattern of \<open>x\<close> is made of.\<close>

definition suffixChar :: "extRef \<Rightarrow> char \<Rightarrow> bool" where
  "suffixChar x = (if ext_alphanumeric x then isWordChar else isDigit)"

text \<open>
  The claim's words: a run of forty bytes of \<^verbatim>\<open>0-9a-f\<close> from \<open>bgn\<close> inside the segment,
  with a boundary byte or an edge of the buffer on each side.
\<close>

definition commitHashAt :: "string \<Rightarrow> nat \<Rightarrow> nat \<Rightarrow> bool" where
  "commitHashAt src bgn fin =
     (bgn + hashLen \<le> fin \<and> list_all isHexLower (take hashLen (drop bgn src))
      \<and> isBoundaryAt src (int bgn - 1) \<and> isBoundaryAt src (int (bgn + hashLen)))"

text \<open>
  The bytes at \<open>bgn + i\<close> up to \<open>bgn + 39\<close> lie in the segment and are of \<^verbatim>\<open>0-9a-f\<close>:
  what lets the loop of \<open>linkCommitSHA\<close> run from \<open>i\<close> to its end.
\<close>

definition hexRunFrom :: "string \<Rightarrow> nat \<Rightarrow> nat \<Rightarrow> nat \<Rightarrow> bool" where
  "hexRunFrom src bgn fin i =
     list_all (\<lambda>j. bgn + j < fin \<and> isHexLower (src ! (bgn + j))) [i..<hashLen]"

text \<open>
  The end of the run of bytes satisfying \<open>P\<close> that starts at \<open>p\<close> and stays inside the
  segment, whose limit is \<open>fin\<close>.
\<close>

definition runEnd :: "(char \<Rightarrow> bool) \<Rightarrow> string \<Rightarrow> nat \<Rightarrow> nat \<Rightarrow> nat" where
  "runEnd P src fin p = p + length (takeWhile P (drop p (take fin src)))"





text \<open>The result of the loop of \<open>lastIndexUserRef\<close> in terms of the end \<open>k\<close> of the name.\<close>

definition userLoopResult :: "string \<Rightarrow> nat \<Rightarrow> nat \<Rightarrow> int" where
  "userLoopResult src fin k =
     (if k < fin then
        (if \<not> isBoundary (src ! k) \<or> src ! k = CHR ''/'' then - 1
         else if src ! (k - 1) = CHR ''-'' then - 1 else int k)
      else if src ! (fin - 1) = CHR ''-'' then - 1
      else if fin < length src then
        (if \<not> isBoundary (src ! fin) \<or> src ! fin = CHR ''/'' then - 1 else int fin)
      else int fin)"

text \<open>The name after the \<^verbatim>\<open>@\<close> at \<open>bgn\<close>, inside the segment.\<close>

definition userName :: "string \<Rightarrow> nat \<Rightarrow> nat \<Rightarrow> string" where
  "userName src bgn fin = takeWhile isUserNameChar (drop (bgn + 1) (take fin src))"

text \<open>
  Acceptance in the claim's words: a boundary before the \<^verbatim>\<open>@\<close>, an alphanumeric byte
  after it, the run of name bytes does not end in a hyphen, and the byte that ends the run,
  if the buffer has one, is a boundary other than \<^verbatim>\<open>/\<close>.
\<close>

definition userRefAccepted :: "string \<Rightarrow> nat \<Rightarrow> nat \<Rightarrow> bool" where
  "userRefAccepted src bgn fin =
     (let k = runEnd isUserNameChar src fin (bgn + 1)
      in isBoundaryAt src (int bgn - 1) \<and> \<not> isBoundary (src ! (bgn + 1))
         \<and> src ! (k - 1) \<noteq> CHR ''-''
         \<and> (k < length src \<longrightarrow> isBoundary (src ! k) \<and> src ! k \<noteq> CHR ''/''))"

text \<open>An owner and a repository name: non-empty, without \<^verbatim>\<open>/\<close>.\<close>

definition slugOK :: "string \<Rightarrow> string \<Rightarrow> bool" where
  "slugOK owner name =
     (owner \<noteq> [] \<and> list_all (\<lambda>b. b \<noteq> CHR ''/'') owner
      \<and> name \<noteq> [] \<and> list_all (\<lambda>b. b \<noteq> CHR ''/'') name)"

text \<open>A fragment as the issue pattern takes it: none, or \<^verbatim>\<open>#\<close> and at least one byte, no newline.\<close>

definition fragOK :: "string \<Rightarrow> bool" where
  "fragOK frag =
     (frag = [] \<or>
      (hd frag = CHR ''#'' \<and> tl frag \<noteq> [] \<and> list_all (\<lambda>b. b \<noteq> CHR 0x0A) (tl frag)))"

text \<open>The annotation of \<open>linkIssueURL\<close> for a fragment.\<close>

definition fragNote :: "string \<Rightarrow> string" where
  "fragNote frag =
     (if frag = [] then []
      else if hasPrefix frag ''#pullrequestreview-'' then '' (review)'' else '' (comment)'')"

text \<open>
  The search of \<^verbatim>\<open>linkURL\<close> finds the URL at \<open>start\<close>: the first occurrence in the
  buffer from the end of the previous sibling, a Text node, or from the start of the
  buffer when there is no sibling. For an AutoLink \<open>AutoLinkNode url pos\<close> the search
  finds the node itself when \<open>located src prev url pos\<close>; it finds other bytes when the
  same URL occurs earlier in the searched part of the buffer.
\<close>

definition located :: "string \<Rightarrow> node option \<Rightarrow> string \<Rightarrow> nat \<Rightarrow> bool" where
  "located src prev url start =
     (case prevStop prev of
        Inl p \<Rightarrow> False
      | Inr start0 \<Rightarrow>
          start0 \<le> length src \<and>
          (case bytesIndex (drop start0 src) url of
             None \<Rightarrow> False
           | Some offset \<Rightarrow> start = start0 + offset))"

text \<open>The URL at \<open>[start, fin)\<close> is written \<^verbatim>\<open><...>\<close>.\<close>

definition angleBracketed :: "string \<Rightarrow> nat \<Rightarrow> nat \<Rightarrow> bool" where
  "angleBracketed src start fin =
     (start > 0 \<and> src ! (start - 1) = CHR ''<'' \<and> fin < length src \<and> src ! fin = CHR ''>'')"

section \<open>Lemmas\<close>

lemma takeWhile_take_length: "take (length (takeWhile P xs)) xs = takeWhile P xs"
  by (induction xs) auto

lemma matchAt_props:
  assumes "matchAt x w s = Some e"
  shows "wordBoundary w s"
    and "take (length (ext_prefix x)) (drop s w) = ext_prefix x"
    and "capturedSuffix x w s e \<noteq> []"
    and "list_all (suffixChar x) (capturedSuffix x w s e)"
    and "e \<le> length w"
    and "s + length (ext_prefix x) < e"
    and "take (e - s) (drop s w) = ext_prefix x @ capturedSuffix x w s e"
proof -
  define p where "p = ext_prefix x"
  define t where "t = s + length p"
  define run where "run = takeWhile (suffixChar x) (drop t w)"
  from assms have c: "wordBoundary w s" "take (length p) (drop s w) = p" "run \<noteq> []"
    and e: "e = t + length run"
    by (auto simp: matchAt_def Let_def p_def t_def run_def suffixChar_def split: if_splits)
  have suf: "capturedSuffix x w s e = run"
    by (simp add: capturedSuffix_def e p_def [symmetric] t_def [symmetric] run_def
        takeWhile_take_length)
  from c(3) have "drop t w \<noteq> []" by (auto simp: run_def)
  then have tw: "t < length w" by simp
  have "length run \<le> length (drop t w)" unfolding run_def by (rule length_takeWhile_le)
  with tw have ew: "e \<le> length w" by (simp add: e)
  from c(3) have lt: "t < e" by (simp add: e)
  have "take (e - s) (drop s w) = take (length p + length run) (drop s w)"
    by (simp add: e t_def)
  also have "\<dots> = take (length p) (drop s w) @ take (length run) (drop (length p) (drop s w))"
    by (simp add: take_add)
  also have "\<dots> = p @ run"
    using c(2) by (simp add: run_def t_def add.commute takeWhile_take_length)
  finally have cat: "take (e - s) (drop s w) = p @ run" .
  show "wordBoundary w s" by (rule c(1))
  show "take (length (ext_prefix x)) (drop s w) = ext_prefix x" using c(2) by (simp add: p_def)
  show "capturedSuffix x w s e \<noteq> []" using c(3) suf by simp
  show "list_all (suffixChar x) (capturedSuffix x w s e)"
    unfolding suf run_def list_all_iff by (auto dest: set_takeWhileD)
  show "e \<le> length w" by (rule ew)
  show "s + length (ext_prefix x) < e" using lt by (simp add: t_def p_def)
  show "take (e - s) (drop s w) = ext_prefix x @ capturedSuffix x w s e"
    using cat suf by (simp add: p_def)
qed

lemma FindIndex_matchAt: "FindIndex x w = Some (s, e) \<Longrightarrow> matchAt x w s = Some e"
  unfolding FindIndex_def using findIndexFrom_Some [of x w 0 "Suc (length w)" s e] by simp

lemma linkExtRefPats_skip:
  "list_all (\<lambda>y. FindIndex y w = None) pre \<Longrightarrow>
   linkExtRefPats (pre @ xs) w links start fin = linkExtRefPats xs w links start fin"
  by (induction pre) simp_all


lemma linkExtRefPats_hit:
  assumes "FindIndex x w = Some (s, e)"
  shows "linkExtRefPats (x # post) w links start fin =
           Inr (links @
                  [\<lparr>link_start = start + s, link_end = start + e,
                    link_text = ''['' @ ext_prefix x @ capturedSuffix x w s e @ '']('' @
                      replaceAll (ext_url x) ''<num>'' (capturedSuffix x w s e) @ '')''\<rparr>],
                start + e)"
proof -
  note m = matchAt_props [OF FindIndex_matchAt [OF assms]]
  from m(5,6) have sl: "sliceBytes w s e = Inr (ext_prefix x @ capturedSuffix x w s e)"
    by (simp add: sliceBytes_def m(7))
  have "sliceFrom (ext_prefix x @ capturedSuffix x w s e) (length (ext_prefix x))
          = Inr (capturedSuffix x w s e)"
    by (simp add: sliceFrom_def sliceBytes_def)
  with sl assms show ?thesis by simp
qed

lemma matchAt_prefix_head:
  assumes "matchAt x w s = Some e" and "ext_prefix x \<noteq> []"
  shows "s < length w \<and> w ! s = hd (ext_prefix x)"
proof -
  from matchAt_props(2) [OF assms(1)]
  have p: "take (length (ext_prefix x)) (drop s w) = ext_prefix x" .
  from assms(2) p have "drop s w \<noteq> []" by auto
  then have lt: "s < length w" by simp
  from p have "hd (take (length (ext_prefix x)) (drop s w)) = hd (ext_prefix x)" by simp
  with assms(2) lt show ?thesis by (simp add: hd_drop_conv_nth)
qed

lemma byteAt_nat:
  "byteAt s (int n) = (if n < length s then Inr (s ! n) else Inl IndexOutOfRange)"
  by (simp add: byteAt_def)

lemma hexRunFrom_iff:
  "hexRunFrom src bgn fin i =
     (\<forall>j. i \<le> j \<and> j < hashLen \<longrightarrow> bgn + j < fin \<and> isHexLower (src ! (bgn + j)))"
  by (auto simp: hexRunFrom_def list_all_iff)

lemma hexRunFrom_step:
  "i < hashLen \<Longrightarrow>
   hexRunFrom src bgn fin i =
     (bgn + i < fin \<and> isHexLower (src ! (bgn + i)) \<and> hexRunFrom src bgn fin (i + 1))"
  unfolding hexRunFrom_iff
  by (metis Suc_eq_plus1 Suc_leD Suc_le_eq le_neq_implies_less order_refl)

lemma hexRunFrom_done: "hashLen \<le> i \<Longrightarrow> hexRunFrom src bgn fin i"
  by (auto simp: hexRunFrom_iff)

lemma commitSHALoop_None:
  "fin \<le> length src \<Longrightarrow> hexRunFrom src bgn fin i \<Longrightarrow> commitSHALoop src bgn fin i = Inr None"
proof (induction src bgn fin i rule: commitSHALoop.induct)
  case (1 src bgn fin i)
  show ?case
  proof (cases "i < hashLen")
    case False
    then show ?thesis by (subst commitSHALoop.simps) simp
  next
    case True
    from "1.prems"(2) True have a: "bgn + i < fin" "isHexLower (src ! (bgn + i))"
      and r: "hexRunFrom src bgn fin (i + 1)"
      by (simp_all add: hexRunFrom_step)
    from a(1) "1.prems"(1) have b: "byteAt src (int (bgn + i)) = Inr (src ! (bgn + i))"
      using byteAt_nat [of src "bgn + i"] by simp
    from a(1) have nf: "\<not> fin \<le> bgn + i" by simp
    from "1.IH" [OF True nf b a(2) "1.prems"(1) r]
    have "commitSHALoop src bgn fin (i + 1) = Inr None" .
    with True nf b a(2) show ?thesis by (subst commitSHALoop.simps) simp
  qed
qed

lemma commitSHALoop_Some:
  "fin \<le> length src \<Longrightarrow> \<not> hexRunFrom src bgn fin i \<Longrightarrow>
   \<exists>k. commitSHALoop src bgn fin i = Inr (Some k)"
proof (induction src bgn fin i rule: commitSHALoop.induct)
  case (1 src bgn fin i)
  from "1.prems"(2) have True: "i < hashLen"
    using hexRunFrom_done [of i src bgn fin] by (cases "i < hashLen") auto
  show ?case
  proof (cases "fin \<le> bgn + i")
    case True
    with \<open>i < hashLen\<close> show ?thesis by (subst commitSHALoop.simps) simp
  next
    case nf: False
    with "1.prems"(1) have b: "byteAt src (int (bgn + i)) = Inr (src ! (bgn + i))"
      using byteAt_nat [of src "bgn + i"] by simp
    show ?thesis
    proof (cases "isHexLower (src ! (bgn + i))")
      case False
      with True nf b show ?thesis by (subst commitSHALoop.simps) simp
    next
      case h: True
      with "1.prems"(2) True nf have "\<not> hexRunFrom src bgn fin (i + 1)"
        by (simp add: hexRunFrom_step)
      from "1.IH" [OF True nf b h "1.prems"(1) this]
      obtain k where "commitSHALoop src bgn fin (i + 1) = Inr (Some k)" by blast
      with True nf b h show ?thesis by (subst commitSHALoop.simps) simp
    qed
  qed
qed

lemma list_all_take_drop:
  assumes "bgn + n \<le> length src"
  shows "list_all P (take n (drop bgn src)) = (\<forall>j<n. P (src ! (bgn + j)))"
proof -
  from assms have "n \<le> length src - bgn" by simp
  then have len: "length (take n (drop bgn src)) = n" by simp
  have "\<And>j. j < n \<Longrightarrow> take n (drop bgn src) ! j = src ! (bgn + j)"
    using assms by simp
  then show ?thesis unfolding list_all_length len by auto
qed

lemma commitHashAt_hexRun:
  assumes "fin \<le> length src" and "isHexLower (src ! bgn)"
  shows "(bgn + hashLen \<le> fin \<and> list_all isHexLower (take hashLen (drop bgn src)))
           = hexRunFrom src bgn fin 1"
proof (cases "bgn + hashLen \<le> fin")
  case False
  then have "\<not> bgn + 39 < fin" by (simp add: hashLen_def)
  then have "\<not> hexRunFrom src bgn fin 1"
    unfolding hexRunFrom_iff hashLen_def
    by (intro notI) (drule spec [of _ 39], simp)
  with False show ?thesis by simp
next
  case True
  with assms(1) have "bgn + hashLen \<le> length src" by simp
  from list_all_take_drop [OF this]
  have la: "list_all isHexLower (take hashLen (drop bgn src))
      = (\<forall>j<hashLen. isHexLower (src ! (bgn + j)))" .
  have "(\<forall>j<hashLen. isHexLower (src ! (bgn + j))) = hexRunFrom src bgn fin 1"
  proof
    assume a: "\<forall>j<hashLen. isHexLower (src ! (bgn + j))"
    show "hexRunFrom src bgn fin 1"
      unfolding hexRunFrom_iff using a True by auto
  next
    assume r: "hexRunFrom src bgn fin 1"
    show "\<forall>j<hashLen. isHexLower (src ! (bgn + j))"
    proof (intro allI impI)
      fix j assume j: "j < hashLen"
      show "isHexLower (src ! (bgn + j))"
      proof (cases "j = 0")
        case True
        with assms(2) show ?thesis by simp
      next
        case False
        with r j show ?thesis by (simp add: hexRunFrom_iff)
      qed
    qed
  qed
  with la True show ?thesis by simp
qed

lemma runEnd_step:
  assumes "p < fin" and "fin \<le> length src"
  shows "runEnd P src fin p = (if P (src ! p) then runEnd P src fin (p + 1) else p)"
proof -
  from assms have "p < length (take fin src)" by simp
  then have "drop p (take fin src) = take fin src ! p # drop (Suc p) (take fin src)"
    by (rule Cons_nth_drop_Suc [symmetric])
  moreover from assms have "take fin src ! p = src ! p" by simp
  ultimately show ?thesis by (simp add: runEnd_def)
qed

lemma runEnd_stop: "fin \<le> p \<Longrightarrow> runEnd P src fin p = p"
  by (simp add: runEnd_def)

lemma runEnd_ge: "p \<le> runEnd P src fin p"
  by (simp add: runEnd_def)

lemma runEnd_le:
  assumes "p \<le> fin"
  shows "runEnd P src fin p \<le> fin"
proof -
  have "length (takeWhile P (drop p (take fin src))) \<le> length (drop p (take fin src))"
    by (rule length_takeWhile_le)
  also have "\<dots> \<le> fin - p" by simp
  finally show ?thesis using assms by (simp add: runEnd_def)
qed

lemma runEnd_take:
  assumes "p \<le> fin" and "fin \<le> length src"
  shows "take (runEnd P src fin p - p) (drop p src) = takeWhile P (drop p (take fin src))"
proof -
  let ?xs = "drop p (take fin src)"
  have le: "length (takeWhile P ?xs) \<le> fin - p"
    using length_takeWhile_le [of P ?xs] by simp
  have "?xs = take (fin - p) (drop p src)" by (simp add: drop_take)
  then have "take (length (takeWhile P ?xs)) ?xs
      = take (length (takeWhile P ?xs)) (drop p src)"
    using le by (simp add: min_def)
  then show ?thesis by (simp add: runEnd_def takeWhile_take_length)
qed

lemma byteAt_pred:
  "0 < n \<Longrightarrow> byteAt s (int n - 1) = (if n \<le> length s then Inr (s ! (n - 1)) else Inl IndexOutOfRange)"
  using byteAt_nat [of s "n - 1"] by (auto simp: of_nat_diff)

lemma isBoundaryAt_nat:
  "isBoundaryAt src (int n) = (if n < length src then isBoundary (src ! n) else True)"
  by (simp add: isBoundaryAt_def)



lemma slice_head_run:
  assumes "bgn < fin" and "fin \<le> length src"
  shows "sliceBytes src bgn (runEnd P src fin (bgn + 1))
           = Inr (src ! bgn # takeWhile P (drop (bgn + 1) (take fin src)))"
proof -
  let ?k = "runEnd P src fin (bgn + 1)"
  have ge: "bgn + 1 \<le> ?k" by (rule runEnd_ge)
  from assms have le: "?k \<le> fin" by (intro runEnd_le) simp
  from assms have "drop bgn src = src ! bgn # drop (Suc bgn) src"
    by (intro Cons_nth_drop_Suc [symmetric]) simp
  moreover from ge have "?k - bgn = Suc (?k - (bgn + 1))" by simp
  ultimately have "take (?k - bgn) (drop bgn src)
      = src ! bgn # take (?k - (bgn + 1)) (drop (bgn + 1) src)"
    by simp
  also have "take (?k - (bgn + 1)) (drop (bgn + 1) src) = takeWhile P (drop (bgn + 1) (take fin src))"
    using assms by (intro runEnd_take) simp_all
  finally show ?thesis using ge le assms by (simp add: sliceBytes_def)
qed

lemma userRefLoop_result:
  "fin \<le> length src \<Longrightarrow> 1 \<le> i \<Longrightarrow> bgn + i \<le> fin \<Longrightarrow>
   userRefLoop src bgn fin i
     = Inr (userLoopResult src fin (runEnd isUserNameChar src fin (bgn + i)))"
proof (induction src bgn fin i rule: userRefLoop.induct)
  case (1 src bgn fin i)
  show ?case
  proof (cases "bgn + i < fin")
    case False
    with "1.prems" have eq: "bgn + i = fin" by simp
    then have k: "runEnd isUserNameChar src fin (bgn + i) = fin" by (simp add: runEnd_stop)
    from "1.prems" eq have pos: "0 < fin" by simp
    from pos "1.prems"(1) have p: "byteAt src (int fin - 1) = Inr (src ! (fin - 1))"
      by (simp add: byteAt_pred)
    have q: "fin < length src \<Longrightarrow> byteAt src (int fin) = Inr (src ! fin)"
      by (simp add: byteAt_nat)
    from False p q show ?thesis
      by (subst userRefLoop.simps) (simp add: k userLoopResult_def)
  next
    case True
    with "1.prems"(1) have b: "byteAt src (int (bgn + i)) = Inr (src ! (bgn + i))"
      using byteAt_nat [of src "bgn + i"] by simp
    note st = runEnd_step [OF True "1.prems"(1), of isUserNameChar]
    show ?thesis
    proof (cases "isUserNameChar (src ! (bgn + i))")
      case d: True
      from True have "bgn + (i + 1) \<le> fin" by simp
      from "1.IH" [OF True b d "1.prems"(1) _ this]
      have "userRefLoop src bgn fin (i + 1) =
          Inr (userLoopResult src fin (runEnd isUserNameChar src fin (bgn + (i + 1))))"
        by simp
      with True b d st show ?thesis
        by (subst userRefLoop.simps) (simp add: add.assoc)
    next
      case d: False
      with st have k: "runEnd isUserNameChar src fin (bgn + i) = bgn + i" by simp
      from "1.prems"(2) have pos: "0 < bgn + i" by simp
      from True "1.prems"(1) have "bgn + i \<le> length src" by simp
      with pos have p: "byteAt src (int (bgn + i) - 1) = Inr (src ! (bgn + i - 1))"
        using byteAt_pred [of "bgn + i" src] by simp
      from True b d p show ?thesis
        by (subst userRefLoop.simps) (simp add: k userLoopResult_def)
    qed
  qed
qed

lemma alnum_userNameChar:
  "(\<not> isBoundary b) = (isUserNameChar b \<and> b \<noteq> CHR ''-'')"
  by (auto simp: isBoundary_def isUserNameChar_def isDigit_def isLower_def isUpper_def byteLE_def)

lemma lastIndexUserRef_result:
  assumes "bgn + 1 < fin" and "fin \<le> length src"
  shows "lastIndexUserRef src bgn fin =
           Inr (if userRefAccepted src bgn fin
                then int (runEnd isUserNameChar src fin (bgn + 1)) else - 1)"
proof -
  let ?k = "runEnd isUserNameChar src fin (bgn + 1)"
  from assms have b: "byteAt src (int (bgn + 1)) = Inr (src ! (bgn + 1))"
    using byteAt_nat [of src "bgn + 1"] by simp
  show ?thesis
  proof (cases "isBoundaryAt src (int bgn - 1) \<and> \<not> isBoundary (src ! (bgn + 1))")
    case False
    then show ?thesis
      using b by (auto simp: lastIndexUserRef_def userRefAccepted_def Let_def alnum_userNameChar)
  next
    case True
    then have u: "isUserNameChar (src ! (bgn + 1))" "src ! (bgn + 1) \<noteq> CHR ''-''"
      by (simp_all add: alnum_userNameChar)
    from runEnd_step [OF assms, of isUserNameChar] u(1)
    have k2: "?k = runEnd isUserNameChar src fin (bgn + 2)" by (simp add: add.assoc)
    from assms have "bgn + 2 \<le> fin" by simp
    from userRefLoop_result [OF assms(2) _ this]
    have "userRefLoop src bgn fin 2
        = Inr (userLoopResult src fin (runEnd isUserNameChar src fin (bgn + 2)))"
      by simp
    then have lp: "userRefLoop src bgn fin 2 = Inr (userLoopResult src fin ?k)"
      by (simp only: k2)
    have ge: "bgn + 2 \<le> ?k" unfolding k2 by (rule runEnd_ge)
    from assms have le: "?k \<le> fin" by (intro runEnd_le) simp
    from True u b lp have li: "lastIndexUserRef src bgn fin = Inr (userLoopResult src fin ?k)"
      by (simp add: lastIndexUserRef_def)
    show ?thesis
    proof (cases "?k < fin")
      case k: True
      with assms(2) have "?k < length src" by simp
      with True k li show ?thesis
        by (auto simp: userRefAccepted_def Let_def userLoopResult_def)
    next
      case k: False
      with le have "?k = fin" by simp
      with True li show ?thesis
        by (auto simp: userRefAccepted_def Let_def userLoopResult_def)
    qed
  qed
qed

lemma takeWhile_until:
  "list_all P xs \<Longrightarrow> \<not> P y \<Longrightarrow> takeWhile P (xs @ y # ys) = xs"
  by (induction xs) auto

lemma dropWhile_until:
  "list_all P xs \<Longrightarrow> \<not> P y \<Longrightarrow> dropWhile P (xs @ y # ys) = y # ys"
  by (induction xs) auto

lemma takeWhile_whole: "list_all P xs \<Longrightarrow> takeWhile P xs = xs"
  by (induction xs) auto

lemma dropWhile_whole: "list_all P xs \<Longrightarrow> dropWhile P xs = []"
  by (induction xs) auto

lemma splitSlug_shape:
  assumes "slugOK owner name"
  shows "splitSlug (''/'' @ owner @ ''/'' @ name @ CHR ''/'' # r)
           = Some (owner @ ''/'' @ name, CHR ''/'' # r)"
proof -
  from assms have o: "owner \<noteq> []" "list_all (\<lambda>b. b \<noteq> CHR ''/'') owner"
    and n: "name \<noteq> []" "list_all (\<lambda>b. b \<noteq> CHR ''/'') name"
    by (simp_all add: slugOK_def)
  have t1: "takeWhile (\<lambda>b. b \<noteq> CHR ''/'') (owner @ CHR ''/'' # name @ CHR ''/'' # r) = owner"
    using o(2) by (intro takeWhile_until) simp_all
  have d1: "dropWhile (\<lambda>b. b \<noteq> CHR ''/'') (owner @ CHR ''/'' # name @ CHR ''/'' # r)
      = CHR ''/'' # name @ CHR ''/'' # r"
    using o(2) by (intro dropWhile_until) simp_all
  have t2: "takeWhile (\<lambda>b. b \<noteq> CHR ''/'') (name @ CHR ''/'' # r) = name"
    using n(2) by (intro takeWhile_until) simp_all
  have d2: "dropWhile (\<lambda>b. b \<noteq> CHR ''/'') (name @ CHR ''/'' # r) = CHR ''/'' # r"
    using n(2) by (intro dropWhile_until) simp_all
  show ?thesis using o(1) n(1) by (simp add: splitSlug_def Let_def t1 d1 t2 d2)
qed

lemma matchCommitPath_shape:
  assumes "slugOK owner name" and "7 \<le> length hash" and "list_all isXDigit hash"
  shows "matchCommitPath (''/'' @ owner @ ''/'' @ name @ ''/commit/'' @ hash)
           = Some (owner @ ''/'' @ name, hash)"
  using splitSlug_shape [OF assms(1), of "''commit/'' @ hash"] assms(2,3)
  by (simp add: matchCommitPath_def hasPrefix_def)

lemma isXDigit_hash: "\<not> isXDigit (CHR ''#'')"
  by (simp add: isXDigit_def isDigit_def byteLE_def)

lemma matchCommitPath_fragment:
  assumes "slugOK owner name"
  shows "matchCommitPath (''/'' @ owner @ ''/'' @ name @ ''/commit/'' @ hash @ CHR ''#'' # f) = None"
  using splitSlug_shape [OF assms, of "''commit/'' @ hash @ CHR ''#'' # f"]
  by (simp add: matchCommitPath_def hasPrefix_def isXDigit_hash)

lemma matchIssuePath_commit:
  assumes "slugOK owner name"
  shows "matchIssuePath (''/'' @ owner @ ''/'' @ name @ ''/commit/'' @ r) = None"
  using splitSlug_shape [OF assms, of "''commit/'' @ r"]
  by (simp add: matchIssuePath_def hasPrefix_def)

lemma isDigit_hash: "\<not> isDigit (CHR ''#'')"
  by (simp add: isDigit_def byteLE_def)

lemma digits_then_fragment:
  assumes "list_all isDigit num" and "fragOK frag"
  shows "takeWhile isDigit (num @ frag) = num" and "dropWhile isDigit (num @ frag) = frag"
proof -
  show "takeWhile isDigit (num @ frag) = num"
  proof (cases frag)
    case Nil
    with assms(1) show ?thesis by (simp add: takeWhile_whole)
  next
    case (Cons c cs)
    with assms(2) have "c = CHR ''#''" by (simp add: fragOK_def)
    with Cons assms(1) show ?thesis by (simp add: takeWhile_until isDigit_hash)
  qed
  show "dropWhile isDigit (num @ frag) = frag"
  proof (cases frag)
    case Nil
    with assms(1) show ?thesis by (simp add: dropWhile_whole)
  next
    case (Cons c cs)
    with assms(2) have "c = CHR ''#''" by (simp add: fragOK_def)
    with Cons assms(1) show ?thesis by (simp add: dropWhile_until isDigit_hash)
  qed
qed

lemma matchIssuePath_shape:
  assumes "slugOK owner name" and "kind = ''pull'' \<or> kind = ''issues''"
    and "num \<noteq> []" and "list_all isDigit num" and "fragOK frag"
  shows "matchIssuePath (''/'' @ owner @ ''/'' @ name @ ''/'' @ kind @ ''/'' @ num @ frag)
           = Some (owner @ ''/'' @ name, num, frag)"
proof -
  note d = digits_then_fragment [OF assms(4,5)]
  from assms(2) show ?thesis
  proof
    assume k: "kind = ''pull''"
    from splitSlug_shape [OF assms(1), of "''pull/'' @ num @ frag"] assms(3,5) d
    show ?thesis by (auto simp: k matchIssuePath_def hasPrefix_def Let_def fragOK_def)
  next
    assume k: "kind = ''issues''"
    from splitSlug_shape [OF assms(1), of "''issues/'' @ num @ frag"] assms(3,5) d
    show ?thesis by (auto simp: k matchIssuePath_def hasPrefix_def Let_def fragOK_def)
  qed
qed

lemma matchCommitPath_issue:
  assumes "slugOK owner name" and "kind = ''pull'' \<or> kind = ''issues''"
  shows "matchCommitPath (''/'' @ owner @ ''/'' @ name @ ''/'' @ kind @ ''/'' @ r) = None"
proof -
  from assms(2) show ?thesis
  proof
    assume k: "kind = ''pull''"
    from splitSlug_shape [OF assms(1), of "''pull/'' @ r"]
    show ?thesis by (simp add: k matchCommitPath_def hasPrefix_def)
  next
    assume k: "kind = ''issues''"
    from splitSlug_shape [OF assms(1), of "''issues/'' @ r"]
    show ?thesis by (simp add: k matchCommitPath_def hasPrefix_def)
  qed
qed

lemma bytesIndex_Some: "bytesIndex s sep = Some i \<Longrightarrow> i + length sep \<le> length s"
proof (induction s arbitrary: i)
  case Nil
  then show ?case by (simp split: if_splits)
next
  case (Cons c s)
  show ?case
  proof (cases "hasPrefix (c # s) sep")
    case True
    then have "length (take (length sep) (c # s)) = length sep" by (simp add: hasPrefix_def)
    then have "length sep \<le> length (c # s)" by (simp add: min_def split: if_splits)
    with True Cons.prems show ?thesis by simp
  next
    case False
    with Cons.prems obtain j where j: "bytesIndex s sep = Some j" "i = Suc j" by auto
    from Cons.IH [OF j(1)] j(2) show ?thesis by simp
  qed
qed

lemma linkURL_located:
  assumes "located src prev url start" and "url \<noteq> []" and "hasPrefix url (home l)"
    and "\<not> angleBracketed src start (start + length url)"
  shows "linkURL l src links prev url =
           (case matchCommitPath (drop (length (home l)) url) of
              Some (slug, hash) \<Rightarrow>
                Inr (linkCommitURL l links slug hash url start (start + length url))
            | None \<Rightarrow>
                (case matchIssuePath (drop (length (home l)) url) of
                   Some (slug, num, frag) \<Rightarrow>
                     Inr (linkIssueURL l links slug num frag url start (start + length url))
                 | None \<Rightarrow> Inr links))"
proof -
  from assms(1) obtain start0 offset where p: "prevStop prev = Inr start0"
    and le: "start0 \<le> length src"
    and ix: "bytesIndex (drop start0 src) url = Some offset"
    and st: "start = start0 + offset"
    by (auto simp: located_def split: sum.splits option.splits)
  from le have sf: "sliceFrom src start0 = Inr (drop start0 src)"
    by (simp add: sliceFrom_def sliceBytes_def)
  from bytesIndex_Some [OF ix] le have fin: "start + length url \<le> length src"
    by (simp add: st)
  with assms(2) have lt: "start < length src" by (cases url) simp_all
  from assms(4) have nb: "\<not> (start > 0 \<and> src ! (start - 1) = CHR ''<''
      \<and> start + length url < length src \<and> src ! (start + length url) = CHR ''>'')"
    by (simp add: angleBracketed_def)
  show ?thesis
    unfolding linkURL_def st
    using p sf ix assms(3) fin lt nb by (auto simp: st Let_def)
qed

text \<open>
  The test for the session's own repository (lines 285 and 320) is a prefix test on the
  URL: for the session of \<^verbatim>\<open>o/r\<close> a URL of the repository \<^verbatim>\<open>o/r2\<close> gets the short form.
\<close>

lemma own_repository_is_a_prefix_test:
  "Link exampleSession (paragraphDoc [AutoLinkNode ''https://github.com/o/r2/pull/15'' 0])
     ''https://github.com/o/r2/pull/15''
   = Inr ''[#15](https://github.com/o/r2/pull/15)''"
  by code_simp

lemma indexAny_Some:
  "indexAny s chars = Some i \<Longrightarrow> i < length s \<and> s ! i \<in> set chars"
proof (induction s arbitrary: i)
  case Nil
  then show ?case by simp
next
  case (Cons b s)
  show ?case
  proof (cases "b \<in> set chars")
    case True
    with Cons.prems show ?thesis by simp
  next
    case False
    with Cons.prems obtain j where j: "indexAny s chars = Some j" "i = Suc j" by auto
    from Cons.IH [OF j(1)] j(2) show ?thesis by simp
  qed
qed

lemma trigger_is_hex:
  assumes "c \<in> set ''#@1234567890abcdef''" and "c \<noteq> CHR ''#''" and "c \<noteq> CHR ''@''"
  shows "isHexLower c"
proof -
  have "list_all (\<lambda>b. b = CHR ''#'' \<or> b = CHR ''@'' \<or> isHexLower b) ''#@1234567890abcdef''"
    by code_simp
  with assms show ?thesis unfolding list_all_iff by blast
qed

text \<open>
  What the scanner has established when it hands a position to a matcher: the position
  \<open>off + i\<close> is not the last of the segment, the segment lies in the buffer, and the byte
  there is the trigger found.
\<close>

lemma scanner_dispatch_preconditions:
  assumes "sliceBytes src off Stop = Inr s" and "indexAny s chars = Some i"
    and "\<not> length s - 1 \<le> i"
  shows "off + i + 1 < Stop \<and> Stop \<le> length src \<and> src ! (off + i) = s ! i \<and> s ! i \<in> set chars"
proof -
  from assms(1) have s: "s = take (Stop - off) (drop off src)" and le: "off \<le> Stop" "Stop \<le> length src"
    by (auto simp: sliceBytes_def split: if_splits)
  from le have len: "length s = Stop - off" by (simp add: s)
  from indexAny_Some [OF assms(2)] have i: "i < length s" "s ! i \<in> set chars" by simp_all
  from assms(3) len have "off + i + 1 < Stop" by simp
  moreover from i(1) len le have "s ! i = src ! (off + i)" by (simp add: s)
  ultimately show ?thesis using le i by simp
qed

lemma scanner_step:
  assumes "off + 1 < Stop" and "sliceBytes src off Stop = Inr s"
    and "indexAny s ''#@1234567890abcdef'' = Some i" and "\<not> length s - 1 \<le> i"
    and "dispatchRef l src links (src ! (off + i)) (off + i) Stop = Inr (links', k)"
  shows "linkGitHubRefsLoop l src Stop links off = linkGitHubRefsLoop l src Stop links' k"
proof -
  from scanner_dispatch_preconditions [OF assms(2,3,4)] have "s ! i = src ! (off + i)" by simp
  with assms show ?thesis by (subst linkGitHubRefsLoop.simps) simp
qed


text \<open>Lines 363-366 of \<^verbatim>\<open>linkURL\<close>: a URL found between \<^verbatim>\<open><\<close> and \<^verbatim>\<open>>\<close> records nothing.\<close>

lemma linkURL_angle:
  assumes "located src prev url start" and "angleBracketed src start (start + length url)"
  shows "linkURL l src links prev url = Inr links"
proof -
  from assms(1) obtain start0 offset where p: "prevStop prev = Inr start0"
    and le: "start0 \<le> length src"
    and ix: "bytesIndex (drop start0 src) url = Some offset"
    and st: "start = start0 + offset"
    by (auto simp: located_def split: sum.splits option.splits)
  from le have sf: "sliceFrom src start0 = Inr (drop start0 src)"
    by (simp add: sliceFrom_def sliceBytes_def)
  from assms(2) have ab: "start > 0 \<and> src ! (start - 1) = CHR ''<''
      \<and> start + length url < length src \<and> src ! (start + length url) = CHR ''>''"
    by (simp add: angleBracketed_def)
  show ?thesis
    unfolding linkURL_def st
    using p sf ix ab by (auto simp: st Let_def)
qed



lemma literalPrefix_excludes: "\<not> literalPrefix ''a.c'' \<and> \<not> literalPrefix ''C++''"
  by code_simp

text \<open>
  \<^verbatim>\<open>linkExtRef\<close> reads the buffer only through the window \<^verbatim>\<open>l.src[start:end]\<close> (line
  249): the bytes before and after the window do not matter.
\<close>

lemma linkExtRef_window:
  "sliceBytes src' start fin = sliceBytes src start fin \<Longrightarrow>
   linkExtRef l src' links start fin = linkExtRef l src links start fin"
  by (simp add: linkExtRef_def)

section \<open>The claims\<close>

subsection \<open>C1: issue references\<close>



subsection \<open>C2: the identity fast path\<close>



subsection \<open>C3: commit hashes\<close>

text \<open>
  Claim C3. A commit-hash candidate is a position \<open>bgn\<close> of a Text segment that the scanner
  hands to \<open>linkCommitSHA\<close>: the byte there is one of \<^verbatim>\<open>0-9a-f\<close> and is not the last
  of the segment (lemmas \<open>scanner_dispatch_preconditions\<close> and \<open>trigger_is_hex\<close>). The candidate is linked exactly when forty bytes of \<^verbatim>\<open>0-9a-f\<close> from
  \<open>bgn\<close> lie in the segment and the bytes before and after them are boundaries or edges
  of the buffer; the span is then \<open>[bgn, bgn + 40)\<close> and its text shows the first ten
  characters and links to the full hash. Otherwise no span is recorded and the cursor moves
  on. A token of forty hex characters is linked, one of thirty-nine is not.
\<close>

theorem C3_commit_hash_linked_iff:
  assumes "bgn < fin" and "fin \<le> length src" and "isHexLower (src ! bgn)"
  shows "(commitHashAt src bgn fin \<longrightarrow>
            linkCommitSHA l src links bgn fin =
              Inr (links @
                     [\<lparr>link_start = bgn, link_end = bgn + 40,
                       link_text = ''[`'' @ take 10 (drop bgn src) @ ''`]('' @ repo l @ ''/commit/''
                          @ take 40 (drop bgn src) @ '')''\<rparr>],
                   bgn + 40))
       \<and> (\<not> commitHashAt src bgn fin \<longrightarrow>
            (case linkCommitSHA l src links bgn fin of
               Inl p \<Rightarrow> False
             | Inr (links', k) \<Rightarrow> links' = links \<and> bgn < k))
       \<and> Link exampleSession (plainDoc 40) ''0123456789abcdef0123456789abcdef01234567''
           = Inr ''[`0123456789`](https://github.com/o/r/commit/0123456789abcdef0123456789abcdef01234567)''
       \<and> Link exampleSession (plainDoc 39) ''0123456789abcdef0123456789abcdef0123456''
           = Inr ''0123456789abcdef0123456789abcdef0123456''"
proof -
  have e1: "Link exampleSession (plainDoc 40) ''0123456789abcdef0123456789abcdef01234567''
           = Inr ''[`0123456789`](https://github.com/o/r/commit/0123456789abcdef0123456789abcdef01234567)''"
    by code_simp
  have e2: "Link exampleSession (plainDoc 39) ''0123456789abcdef0123456789abcdef0123456''
           = Inr ''0123456789abcdef0123456789abcdef0123456''"
    by code_simp
  note run = commitHashAt_hexRun [OF assms(2,3)]
  have yes: "commitHashAt src bgn fin \<longrightarrow>
            linkCommitSHA l src links bgn fin =
              Inr (links @
                     [\<lparr>link_start = bgn, link_end = bgn + 40,
                       link_text = ''[`'' @ take 10 (drop bgn src) @ ''`]('' @ repo l @ ''/commit/''
                          @ take 40 (drop bgn src) @ '')''\<rparr>],
                   bgn + 40)"
  proof
    assume c: "commitHashAt src bgn fin"
    then have le: "bgn + hashLen \<le> fin" and b: "isBoundaryAt src (int bgn - 1)"
      "isBoundaryAt src (int (bgn + hashLen))"
      and r: "hexRunFrom src bgn fin 1"
      using run by (simp_all add: commitHashAt_def)
    from commitSHALoop_None [OF assms(2) r] have lp: "commitSHALoop src bgn fin 1 = Inr None" .
    from le assms(2) have sl: "sliceBytes src bgn (bgn + hashLen) = Inr (take hashLen (drop bgn src))"
      by (simp add: sliceBytes_def)
    from le assms(2) have sh: "sliceBytes (take hashLen (drop bgn src)) 0 10
        = Inr (take 10 (drop bgn src))"
      by (auto simp: sliceBytes_def hashLen_def min_def)
    from lp b sl sh show "linkCommitSHA l src links bgn fin =
              Inr (links @
                     [\<lparr>link_start = bgn, link_end = bgn + 40,
                       link_text = ''[`'' @ take 10 (drop bgn src) @ ''`]('' @ repo l @ ''/commit/''
                          @ take 40 (drop bgn src) @ '')''\<rparr>],
                   bgn + 40)"
      by (simp add: linkCommitSHA_def) (simp add: hashLen_def)
  qed
  have no: "\<not> commitHashAt src bgn fin \<longrightarrow>
            (case linkCommitSHA l src links bgn fin of
               Inl p \<Rightarrow> False
             | Inr (links', k) \<Rightarrow> links' = links \<and> bgn < k)"
  proof
    assume c: "\<not> commitHashAt src bgn fin"
    show "case linkCommitSHA l src links bgn fin of
               Inl p \<Rightarrow> False
             | Inr (links', k) \<Rightarrow> links' = links \<and> bgn < k"
    proof (cases "hexRunFrom src bgn fin 1")
      case False
      from commitSHALoop_Some [OF assms(2) False] obtain k where
        k: "commitSHALoop src bgn fin 1 = Inr (Some k)" by blast
      from commitSHALoop_progress [OF k] have "bgn < k" by simp
      with k show ?thesis by (simp add: linkCommitSHA_def)
    next
      case True
      from commitSHALoop_None [OF assms(2) True] have lp: "commitSHALoop src bgn fin 1 = Inr None" .
      from True c run have "\<not> (isBoundaryAt src (int bgn - 1)
          \<and> isBoundaryAt src (int (bgn + hashLen)))"
        by (simp add: commitHashAt_def)
      with lp show ?thesis by (auto simp: linkCommitSHA_def hashLen_def)
    qed
  qed
  from yes no e1 e2 show ?thesis by blast
qed

theorem C3_commit_hash_linked_iff_witness:
  "commitHashAt ''0123456789abcdef0123456789abcdef01234567'' 0 40
   \<and> linkCommitSHA exampleSession ''0123456789abcdef0123456789abcdef01234567'' [] 0 40 =
       Inr ([\<lparr>link_start = 0, link_end = 40,
              link_text = ''[`0123456789`](https://github.com/o/r/commit/0123456789abcdef0123456789abcdef01234567)''\<rparr>],
            40)
   \<and> \<not> commitHashAt ''0123456789abcdef0123456789abcdef0123456'' 0 39
   \<and> (case linkCommitSHA exampleSession ''0123456789abcdef0123456789abcdef0123456'' [] 0 39 of
         Inl p \<Rightarrow> False
       | Inr (links', k) \<Rightarrow> links' = [] \<and> 0 < k)"
proof -
  have a1: "(0::nat) < 40" and a2: "40 \<le> length ''0123456789abcdef0123456789abcdef01234567''"
    and a3: "isHexLower (''0123456789abcdef0123456789abcdef01234567'' ! 0)"
    by (simp_all add: isHexLower_def isDigit_def byteLE_def)
  have a4: "commitHashAt ''0123456789abcdef0123456789abcdef01234567'' 0 40" by code_simp
  have a5: "repo exampleSession = ''https://github.com/o/r''"
    by (simp add: exampleSession_def)
  have b1: "(0::nat) < 39" and b2: "39 \<le> length ''0123456789abcdef0123456789abcdef0123456''"
    and b3: "isHexLower (''0123456789abcdef0123456789abcdef0123456'' ! 0)"
    by (simp_all add: isHexLower_def isDigit_def byteLE_def)
  have b4: "\<not> commitHashAt ''0123456789abcdef0123456789abcdef0123456'' 0 39" by code_simp
  from C3_commit_hash_linked_iff [OF a1 a2 a3, of exampleSession "[]"] a4 a5
  have a: "linkCommitSHA exampleSession ''0123456789abcdef0123456789abcdef01234567'' [] 0 40 =
       Inr ([\<lparr>link_start = 0, link_end = 40,
              link_text = ''[`0123456789`](https://github.com/o/r/commit/0123456789abcdef0123456789abcdef01234567)''\<rparr>],
            40)"
    by simp
  from C3_commit_hash_linked_iff [OF b1 b2 b3, of exampleSession "[]"] b4
  have b: "case linkCommitSHA exampleSession ''0123456789abcdef0123456789abcdef0123456'' [] 0 39 of
         Inl p \<Rightarrow> False
       | Inr (links', k) \<Rightarrow> links' = [] \<and> 0 < k"
    by blast
  from a4 a b4 b show ?thesis by blast
qed

subsection \<open>C4: user mentions\<close>

text \<open>
  Claim C4. The scanner hands a \<^verbatim>\<open>@\<close> at \<open>bgn\<close> to \<open>linkUserRef\<close> only when it is not
  the last byte of the segment and the segment lies in the buffer (lemma
  \<open>scanner_dispatch_preconditions\<close>). The mention is linked exactly when the byte before the
  \<^verbatim>\<open>@\<close> is a boundary (or the buffer starts there), the byte after it is alphanumeric,
  the run of alphanumerics and hyphens that follows inside the segment does not end in a
  hyphen, and the byte after the run, if the buffer has one, is a boundary other than
  \<^verbatim>\<open>/\<close>. The span is then the \<^verbatim>\<open>@\<close> with the name, and its text is
  \<^verbatim>\<open>[@name](<home>/name)\<close>; otherwise nothing is recorded and the scan resumes one byte
  later. \<^verbatim>\<open>@foo-bar\<close> is linked, \<^verbatim>\<open>@-foo\<close> is left unchanged.
\<close>

theorem C4_user_mention_accepted_iff:
  assumes "bgn + 1 < fin" and "fin \<le> length src" and "src ! bgn = CHR ''@''"
  shows "(userRefAccepted src bgn fin \<longrightarrow>
            linkUserRef l src links bgn fin =
              Inr (links @
                     [\<lparr>link_start = bgn, link_end = runEnd isUserNameChar src fin (bgn + 1),
                       link_text = ''[@'' @ userName src bgn fin @ '']('' @ home l @ ''/''
                          @ userName src bgn fin @ '')''\<rparr>],
                   runEnd isUserNameChar src fin (bgn + 1)))
       \<and> (\<not> userRefAccepted src bgn fin \<longrightarrow>
            linkUserRef l src links bgn fin = Inr (links, bgn + 1))
       \<and> Link exampleSession (plainDoc 8) ''@foo-bar''
           = Inr ''[@foo-bar](https://github.com/foo-bar)''
       \<and> Link exampleSession (plainDoc 5) ''@-foo'' = Inr ''@-foo''"
proof -
  have e1: "Link exampleSession (plainDoc 8) ''@foo-bar''
           = Inr ''[@foo-bar](https://github.com/foo-bar)''"
    by code_simp
  have e2: "Link exampleSession (plainDoc 5) ''@-foo'' = Inr ''@-foo''" by code_simp
  note li = lastIndexUserRef_result [OF assms(1,2)]
  have no: "\<not> userRefAccepted src bgn fin \<longrightarrow>
            linkUserRef l src links bgn fin = Inr (links, bgn + 1)"
    using li by (simp add: linkUserRef_def)
  have yes: "userRefAccepted src bgn fin \<longrightarrow>
            linkUserRef l src links bgn fin =
              Inr (links @
                     [\<lparr>link_start = bgn, link_end = runEnd isUserNameChar src fin (bgn + 1),
                       link_text = ''[@'' @ userName src bgn fin @ '']('' @ home l @ ''/''
                          @ userName src bgn fin @ '')''\<rparr>],
                   runEnd isUserNameChar src fin (bgn + 1))"
  proof
    assume a: "userRefAccepted src bgn fin"
    from assms(1) have "bgn < fin" by simp
    from slice_head_run [OF this assms(2), of isUserNameChar] assms(3)
    have sl: "sliceBytes src bgn (runEnd isUserNameChar src fin (bgn + 1))
        = Inr (CHR ''@'' # userName src bgn fin)"
      by (simp add: userName_def)
    have sf: "sliceFrom (CHR ''@'' # userName src bgn fin) 1 = Inr (userName src bgn fin)"
      by (simp add: sliceFrom_def sliceBytes_def)
    from a li sl sf show "linkUserRef l src links bgn fin =
              Inr (links @
                     [\<lparr>link_start = bgn, link_end = runEnd isUserNameChar src fin (bgn + 1),
                       link_text = ''[@'' @ userName src bgn fin @ '']('' @ home l @ ''/''
                          @ userName src bgn fin @ '')''\<rparr>],
                   runEnd isUserNameChar src fin (bgn + 1))"
      by (simp add: linkUserRef_def)
  qed
  from yes no e1 e2 show ?thesis by blast
qed

theorem C4_user_mention_accepted_iff_witness:
  "userRefAccepted ''hi @foo-bar.'' 3 12
   \<and> linkUserRef exampleSession ''hi @foo-bar.'' [] 3 12 =
       Inr ([\<lparr>link_start = 3, link_end = 11,
              link_text = ''[@foo-bar](https://github.com/foo-bar)''\<rparr>], 11)
   \<and> \<not> userRefAccepted ''@-foo'' 0 5
   \<and> linkUserRef exampleSession ''@-foo'' [] 0 5 = Inr ([], 1)
   \<and> \<not> userRefAccepted ''@foo- '' 0 6
   \<and> \<not> userRefAccepted ''@foo/bar'' 0 8"
proof -
  have a1: "(3::nat) + 1 < 12" and a2: "12 \<le> length ''hi @foo-bar.''"
    and a3: "''hi @foo-bar.'' ! 3 = CHR ''@''"
    by simp_all
  have a4: "userRefAccepted ''hi @foo-bar.'' 3 12" by code_simp
  have a5: "runEnd isUserNameChar ''hi @foo-bar.'' 12 4 = 11" by code_simp
  have a6: "userName ''hi @foo-bar.'' 3 12 = ''foo-bar''" by code_simp
  have a7: "home exampleSession = ''https://github.com''" by code_simp
  have b1: "(0::nat) + 1 < 5" and b2: "5 \<le> length ''@-foo''"
    and b3: "''@-foo'' ! 0 = CHR ''@''"
    by simp_all
  have b4: "\<not> userRefAccepted ''@-foo'' 0 5" by code_simp
  have c: "\<not> userRefAccepted ''@foo- '' 0 6" "\<not> userRefAccepted ''@foo/bar'' 0 8"
    by code_simp+
  from C4_user_mention_accepted_iff [OF a1 a2 a3, of exampleSession "[]"] a4
  have a: "linkUserRef exampleSession ''hi @foo-bar.'' [] 3 12 =
       Inr ([\<lparr>link_start = 3, link_end = 11,
              link_text = ''[@foo-bar](https://github.com/foo-bar)''\<rparr>], 11)"
    by (simp add: a5 a6 a7)
  from C4_user_mention_accepted_iff [OF b1 b2 b3, of exampleSession "[]"] b4
  have b: "linkUserRef exampleSession ''@-foo'' [] 0 5 = Inr ([], 1)"
    by simp
  from a4 a b4 b c show ?thesis by blast
qed

subsection \<open>C5: URLs of AutoLink nodes\<close>

text \<open>
  Claim C5, as amended. Take an AutoLink that stands at \<open>pos\<close> in the buffer, whose URL
  starts with the home of the session, and which the search of \<^verbatim>\<open>linkURL\<close> finds: the
  first occurrence of the URL in the buffer from the end of the preceding Text sibling
  (from the start of the buffer when there is no sibling) is the one at \<open>pos\<close>. When the
  URL is written \<^verbatim>\<open><...>\<close> there, nothing is recorded. Otherwise: if the URL is the
  home followed by \<^verbatim>\<open>/owner/name/commit/\<close> and seven or more hex digits, the span of the
  URL is recorded with the text \<^verbatim>\<open>[`short`](url)\<close> when \<^verbatim>\<open>home/owner/name\<close> is the
  repository of the session, and with \<^verbatim>\<open>[owner/name@`short`](url)\<close> when the URL does
  not start with the repository of the session; \<open>short\<close> is the first ten digits of the
  hash. If a fragment follows the hash, nothing is recorded. If the URL is the home
  followed by \<^verbatim>\<open>/owner/name/pull/\<close> or \<^verbatim>\<open>/owner/name/issues/\<close>, a number and an optional
  fragment, the text is \<^verbatim>\<open>[#N](url)\<close> or \<^verbatim>\<open>[owner/name#N](url)\<close>, with \<^verbatim>\<open> (review)\<close>
  after the number for a fragment that starts with \<^verbatim>\<open>#pullrequestreview-\<close> and
  \<^verbatim>\<open> (comment)\<close> for any other fragment.
\<close>

theorem C5_autolink_display:
  assumes "located src prev url pos" and "slugOK owner name"
  shows "(angleBracketed src pos (pos + length url) \<longrightarrow>
            walk l src prev (AutoLinkNode url pos) links = Inr links)
       \<and> (\<not> angleBracketed src pos (pos + length url) \<longrightarrow>
           (7 \<le> length hash \<and> list_all isXDigit hash
              \<and> url = home l @ ''/'' @ owner @ ''/'' @ name @ ''/commit/'' @ hash \<longrightarrow>
              (repo l = home l @ ''/'' @ owner @ ''/'' @ name \<longrightarrow>
                 walk l src prev (AutoLinkNode url pos) links =
                   Inr (links @
                          [\<lparr>link_start = pos, link_end = pos + length url,
                            link_text = ''[`'' @ take 10 hash @ ''`]('' @ url @ '')''\<rparr>]))
              \<and> (\<not> hasPrefix url (repo l) \<longrightarrow>
                 walk l src prev (AutoLinkNode url pos) links =
                   Inr (links @
                          [\<lparr>link_start = pos, link_end = pos + length url,
                            link_text = ''['' @ owner @ ''/'' @ name @ ''@`'' @ take 10 hash
                               @ ''`]('' @ url @ '')''\<rparr>])))
         \<and> (url = home l @ ''/'' @ owner @ ''/'' @ name @ ''/commit/'' @ hash @ CHR ''#'' # f \<longrightarrow>
              walk l src prev (AutoLinkNode url pos) links = Inr links)
         \<and> ((kind = ''pull'' \<or> kind = ''issues'') \<and> num \<noteq> [] \<and> list_all isDigit num
              \<and> fragOK frag
              \<and> url = home l @ ''/'' @ owner @ ''/'' @ name @ ''/'' @ kind @ ''/'' @ num @ frag \<longrightarrow>
              (repo l = home l @ ''/'' @ owner @ ''/'' @ name \<longrightarrow>
                 walk l src prev (AutoLinkNode url pos) links =
                   Inr (links @
                          [\<lparr>link_start = pos, link_end = pos + length url,
                            link_text = ''[#'' @ num @ fragNote frag @ '']('' @ url @ '')''\<rparr>]))
              \<and> (\<not> hasPrefix url (repo l) \<longrightarrow>
                 walk l src prev (AutoLinkNode url pos) links =
                   Inr (links @
                          [\<lparr>link_start = pos, link_end = pos + length url,
                            link_text = ''['' @ owner @ ''/'' @ name @ ''#'' @ num @ fragNote frag
                               @ '']('' @ url @ '')''\<rparr>]))))
       \<and> Link exampleSession
           (paragraphDoc [TextNode 0 4,
              AutoLinkNode ''https://github.com/o/r/pull/15#pullrequestreview-1'' 4])
           ''see https://github.com/o/r/pull/15#pullrequestreview-1''
         = Inr ''see [#15 (review)](https://github.com/o/r/pull/15#pullrequestreview-1)''
       \<and> Link exampleSession
           (paragraphDoc [TextNode 0 4,
              AutoLinkNode ''https://github.com/a/b/pull/15#pullrequestreview-1'' 4])
           ''see https://github.com/a/b/pull/15#pullrequestreview-1''
         = Inr ''see [a/b#15 (review)](https://github.com/a/b/pull/15#pullrequestreview-1)''
       \<and> Link exampleSession
           (paragraphDoc [TextNode 0 4,
              AutoLinkNode ''https://github.com/o/r/commit/0123456789abcdef#diff-1'' 4])
           ''see https://github.com/o/r/commit/0123456789abcdef#diff-1''
         = Inr ''see https://github.com/o/r/commit/0123456789abcdef#diff-1''"
proof -
  have e1: "Link exampleSession
           (paragraphDoc [TextNode 0 4,
              AutoLinkNode ''https://github.com/o/r/pull/15#pullrequestreview-1'' 4])
           ''see https://github.com/o/r/pull/15#pullrequestreview-1''
         = Inr ''see [#15 (review)](https://github.com/o/r/pull/15#pullrequestreview-1)''"
    by code_simp
  have e2: "Link exampleSession
           (paragraphDoc [TextNode 0 4,
              AutoLinkNode ''https://github.com/a/b/pull/15#pullrequestreview-1'' 4])
           ''see https://github.com/a/b/pull/15#pullrequestreview-1''
         = Inr ''see [a/b#15 (review)](https://github.com/a/b/pull/15#pullrequestreview-1)''"
    by code_simp
  have e3: "Link exampleSession
           (paragraphDoc [TextNode 0 4,
              AutoLinkNode ''https://github.com/o/r/commit/0123456789abcdef#diff-1'' 4])
           ''see https://github.com/o/r/commit/0123456789abcdef#diff-1''
         = Inr ''see https://github.com/o/r/commit/0123456789abcdef#diff-1''"
    by code_simp
  have w: "walk l src prev (AutoLinkNode url pos) links = linkURL l src links prev url"
    by simp
  have angle: "angleBracketed src pos (pos + length url) \<longrightarrow>
      walk l src prev (AutoLinkNode url pos) links = Inr links"
    using linkURL_angle [OF assms(1)] by (simp add: w)
  have commit: "\<not> angleBracketed src pos (pos + length url) \<Longrightarrow>
            7 \<le> length hash \<and> list_all isXDigit hash
            \<and> url = home l @ ''/'' @ owner @ ''/'' @ name @ ''/commit/'' @ hash \<longrightarrow>
            (repo l = home l @ ''/'' @ owner @ ''/'' @ name \<longrightarrow>
               linkURL l src links prev url =
                 Inr (links @
                        [\<lparr>link_start = pos, link_end = pos + length url,
                          link_text = ''[`'' @ take 10 hash @ ''`]('' @ url @ '')''\<rparr>]))
            \<and> (\<not> hasPrefix url (repo l) \<longrightarrow>
               linkURL l src links prev url =
                 Inr (links @
                        [\<lparr>link_start = pos, link_end = pos + length url,
                          link_text = ''['' @ owner @ ''/'' @ name @ ''@`'' @ take 10 hash
                             @ ''`]('' @ url @ '')''\<rparr>]))"
  proof (intro impI, elim conjE)
    assume nb: "\<not> angleBracketed src pos (pos + length url)"
    assume h: "7 \<le> length hash" "list_all isXDigit hash"
      and u: "url = home l @ ''/'' @ owner @ ''/'' @ name @ ''/commit/'' @ hash"
    from u have ne: "url \<noteq> []" and hp: "hasPrefix url (home l)"
      and path: "drop (length (home l)) url = ''/'' @ owner @ ''/'' @ name @ ''/commit/'' @ hash"
      by (simp_all add: hasPrefix_def)
    from linkURL_located [OF assms(1) ne hp nb]
      matchCommitPath_shape [OF assms(2) h]
    have eq: "linkURL l src links prev url =
        Inr (linkCommitURL l links (owner @ ''/'' @ name) hash url pos (pos + length url))"
      by (simp add: path)
    have own: "repo l = home l @ ''/'' @ owner @ ''/'' @ name \<Longrightarrow> hasPrefix url (repo l)"
      by (simp add: u hasPrefix_def)
    from eq own show "(repo l = home l @ ''/'' @ owner @ ''/'' @ name \<longrightarrow>
               linkURL l src links prev url =
                 Inr (links @
                        [\<lparr>link_start = pos, link_end = pos + length url,
                          link_text = ''[`'' @ take 10 hash @ ''`]('' @ url @ '')''\<rparr>]))
            \<and> (\<not> hasPrefix url (repo l) \<longrightarrow>
               linkURL l src links prev url =
                 Inr (links @
                        [\<lparr>link_start = pos, link_end = pos + length url,
                          link_text = ''['' @ owner @ ''/'' @ name @ ''@`'' @ take 10 hash
                             @ ''`]('' @ url @ '')''\<rparr>]))"
      by (simp add: linkCommitURL_def Let_def)
  qed
  have frag: "\<not> angleBracketed src pos (pos + length url) \<Longrightarrow>
            url = home l @ ''/'' @ owner @ ''/'' @ name @ ''/commit/'' @ hash @ CHR ''#'' # f \<longrightarrow>
            linkURL l src links prev url = Inr links"
  proof
    assume nb: "\<not> angleBracketed src pos (pos + length url)"
    assume u: "url = home l @ ''/'' @ owner @ ''/'' @ name @ ''/commit/'' @ hash @ CHR ''#'' # f"
    from u have ne: "url \<noteq> []" and hp: "hasPrefix url (home l)"
      and path: "drop (length (home l)) url
          = ''/'' @ owner @ ''/'' @ name @ ''/commit/'' @ hash @ CHR ''#'' # f"
      by (simp_all add: hasPrefix_def)
    from linkURL_located [OF assms(1) ne hp nb]
      matchCommitPath_fragment [OF assms(2), of hash f]
      matchIssuePath_commit [OF assms(2), of "hash @ CHR ''#'' # f"]
    show "linkURL l src links prev url = Inr links"
      by (simp add: path)
  qed
  have issue: "\<not> angleBracketed src pos (pos + length url) \<Longrightarrow>
            (kind = ''pull'' \<or> kind = ''issues'') \<and> num \<noteq> [] \<and> list_all isDigit num
            \<and> fragOK frag
            \<and> url = home l @ ''/'' @ owner @ ''/'' @ name @ ''/'' @ kind @ ''/'' @ num @ frag \<longrightarrow>
            (repo l = home l @ ''/'' @ owner @ ''/'' @ name \<longrightarrow>
               linkURL l src links prev url =
                 Inr (links @
                        [\<lparr>link_start = pos, link_end = pos + length url,
                          link_text = ''[#'' @ num @ fragNote frag @ '']('' @ url @ '')''\<rparr>]))
            \<and> (\<not> hasPrefix url (repo l) \<longrightarrow>
               linkURL l src links prev url =
                 Inr (links @
                        [\<lparr>link_start = pos, link_end = pos + length url,
                          link_text = ''['' @ owner @ ''/'' @ name @ ''#'' @ num @ fragNote frag
                             @ '']('' @ url @ '')''\<rparr>]))"
  proof (intro impI, elim conjE)
    assume nb: "\<not> angleBracketed src pos (pos + length url)"
    assume k: "kind = ''pull'' \<or> kind = ''issues''" and n: "num \<noteq> []" "list_all isDigit num"
      and fr: "fragOK frag"
      and u: "url = home l @ ''/'' @ owner @ ''/'' @ name @ ''/'' @ kind @ ''/'' @ num @ frag"
    from u have ne: "url \<noteq> []" and hp: "hasPrefix url (home l)"
      and path: "drop (length (home l)) url
          = ''/'' @ owner @ ''/'' @ name @ ''/'' @ kind @ ''/'' @ num @ frag"
      by (simp_all add: hasPrefix_def)
    from linkURL_located [OF assms(1) ne hp nb]
      matchCommitPath_issue [OF assms(2) k, of "num @ frag"]
      matchIssuePath_shape [OF assms(2) k n fr]
    have eq: "linkURL l src links prev url =
        Inr (linkIssueURL l links (owner @ ''/'' @ name) num frag url pos (pos + length url))"
      by (simp add: path)
    have own: "repo l = home l @ ''/'' @ owner @ ''/'' @ name \<Longrightarrow> hasPrefix url (repo l)"
      by (simp add: u hasPrefix_def)
    from eq own show "(repo l = home l @ ''/'' @ owner @ ''/'' @ name \<longrightarrow>
               linkURL l src links prev url =
                 Inr (links @
                        [\<lparr>link_start = pos, link_end = pos + length url,
                          link_text = ''[#'' @ num @ fragNote frag @ '']('' @ url @ '')''\<rparr>]))
            \<and> (\<not> hasPrefix url (repo l) \<longrightarrow>
               linkURL l src links prev url =
                 Inr (links @
                        [\<lparr>link_start = pos, link_end = pos + length url,
                          link_text = ''['' @ owner @ ''/'' @ name @ ''#'' @ num @ fragNote frag
                             @ '']('' @ url @ '')''\<rparr>]))"
      by (auto simp: linkIssueURL_def Let_def fragNote_def)
  qed
  from angle commit frag issue e1 e2 e3 show ?thesis unfolding w by blast
qed

theorem C5_autolink_display_witness:
  "located ''see https://github.com/o/r/pull/15#pullrequestreview-1'' (Some (TextNode 0 4))
      ''https://github.com/o/r/pull/15#pullrequestreview-1'' 4
   \<and> \<not> angleBracketed ''see https://github.com/o/r/pull/15#pullrequestreview-1'' 4
        (4 + length ''https://github.com/o/r/pull/15#pullrequestreview-1'')
   \<and> slugOK ''o'' ''r''
   \<and> walk exampleSession ''see https://github.com/o/r/pull/15#pullrequestreview-1''
        (Some (TextNode 0 4))
        (AutoLinkNode ''https://github.com/o/r/pull/15#pullrequestreview-1'' 4) []
       = Inr [\<lparr>link_start = 4, link_end = 54,
               link_text = ''[#15 (review)](https://github.com/o/r/pull/15#pullrequestreview-1)''\<rparr>]
   \<and> located ''https://github.com/a/b/commit/0123456789abcdef'' None
        ''https://github.com/a/b/commit/0123456789abcdef'' 0
   \<and> \<not> angleBracketed ''https://github.com/a/b/commit/0123456789abcdef'' 0
        (0 + length ''https://github.com/a/b/commit/0123456789abcdef'')
   \<and> slugOK ''a'' ''b''
   \<and> walk exampleSession ''https://github.com/a/b/commit/0123456789abcdef'' None
        (AutoLinkNode ''https://github.com/a/b/commit/0123456789abcdef'' 0) []
       = Inr [\<lparr>link_start = 0, link_end = 46,
               link_text = ''[a/b@`0123456789`](https://github.com/a/b/commit/0123456789abcdef)''\<rparr>]
   \<and> located ''<https://github.com/o/r/pull/15>'' None ''https://github.com/o/r/pull/15'' 1
   \<and> angleBracketed ''<https://github.com/o/r/pull/15>'' 1
        (1 + length ''https://github.com/o/r/pull/15'')
   \<and> walk exampleSession ''<https://github.com/o/r/pull/15>'' None
        (AutoLinkNode ''https://github.com/o/r/pull/15'' 1) [] = Inr []"
proof -
  have a1: "located ''see https://github.com/o/r/pull/15#pullrequestreview-1'' (Some (TextNode 0 4))
      ''https://github.com/o/r/pull/15#pullrequestreview-1'' 4"
    by code_simp
  have a2: "\<not> angleBracketed ''see https://github.com/o/r/pull/15#pullrequestreview-1'' 4
        (4 + length ''https://github.com/o/r/pull/15#pullrequestreview-1'')"
    by code_simp
  have a3: "slugOK ''o'' ''r''" by code_simp
  have a4: "list_all isDigit ''15''" by code_simp
  have a5: "fragOK ''#pullrequestreview-1''" by code_simp
  have a6: "fragNote ''#pullrequestreview-1'' = '' (review)''" by code_simp
  have h: "home exampleSession = ''https://github.com''" by code_simp
  have r: "repo exampleSession = ''https://github.com/o/r''" by code_simp
  from C5_autolink_display [OF a1 a3, where kind = "''pull''" and num = "''15''"
      and frag = "''#pullrequestreview-1''" and l = exampleSession and links = "[]"] a2 a4 a5
  have a: "walk exampleSession ''see https://github.com/o/r/pull/15#pullrequestreview-1''
        (Some (TextNode 0 4))
        (AutoLinkNode ''https://github.com/o/r/pull/15#pullrequestreview-1'' 4) []
       = Inr [\<lparr>link_start = 4, link_end = 54,
               link_text = ''[#15 (review)](https://github.com/o/r/pull/15#pullrequestreview-1)''\<rparr>]"
    by (simp add: a6 h r)
  have b1: "located ''https://github.com/a/b/commit/0123456789abcdef'' None
        ''https://github.com/a/b/commit/0123456789abcdef'' 0"
    by code_simp
  have b2: "\<not> angleBracketed ''https://github.com/a/b/commit/0123456789abcdef'' 0
        (0 + length ''https://github.com/a/b/commit/0123456789abcdef'')"
    by code_simp
  have b3: "slugOK ''a'' ''b''" by code_simp
  have b4: "list_all isXDigit ''0123456789abcdef''" by code_simp
  have b5: "\<not> hasPrefix ''https://github.com/a/b/commit/0123456789abcdef'' (repo exampleSession)"
    by code_simp
  from C5_autolink_display [OF b1 b3, where hash = "''0123456789abcdef''"
      and l = exampleSession and links = "[]"] b2 b4 b5
  have b: "walk exampleSession ''https://github.com/a/b/commit/0123456789abcdef'' None
        (AutoLinkNode ''https://github.com/a/b/commit/0123456789abcdef'' 0) []
       = Inr [\<lparr>link_start = 0, link_end = 46,
               link_text = ''[a/b@`0123456789`](https://github.com/a/b/commit/0123456789abcdef)''\<rparr>]"
    by (simp add: h)
  have c1: "located ''<https://github.com/o/r/pull/15>'' None ''https://github.com/o/r/pull/15'' 1"
    by code_simp
  have c2: "angleBracketed ''<https://github.com/o/r/pull/15>'' 1
        (1 + length ''https://github.com/o/r/pull/15'')"
    by code_simp
  from C5_autolink_display [OF c1 a3, where l = exampleSession and links = "[]"] c2
  have c: "walk exampleSession ''<https://github.com/o/r/pull/15>'' None
        (AutoLinkNode ''https://github.com/o/r/pull/15'' 1) [] = Inr []"
    by simp
  from a1 a2 a3 a b1 b2 b3 b c1 c2 c show ?thesis by blast
qed

text \<open>
  Claim C5 as stated fails for an AutoLink written with its delimiters: the URL of
  \<^verbatim>\<open><https://github.com/o/r/commit/0123456>\<close> starts with the home and has a commit path,
  and \<open>linkURL\<close> returns before the path is looked at (lines 363-366).
\<close>

theorem C5_angle_brackets_counterexample:
  "hasPrefix ''https://github.com/o/r/commit/0123456'' (home exampleSession)
   \<and> matchCommitPath ''/o/r/commit/0123456'' = Some (''o/r'', ''0123456'')
   \<and> walk exampleSession ''<https://github.com/o/r/commit/0123456>'' None
        (AutoLinkNode ''https://github.com/o/r/commit/0123456'' 1) [] = Inr []
   \<and> Link exampleSession (paragraphDoc [AutoLinkNode ''https://github.com/o/r/commit/0123456'' 1])
        ''<https://github.com/o/r/commit/0123456>''
       = Inr ''<https://github.com/o/r/commit/0123456>''"
  by code_simp

subsection \<open>C6: external references\<close>



subsection \<open>C7: CodeSpan and Link subtrees are skipped\<close>

text \<open>
  The walker itself records nothing when it enters a CodeSpan or a Link node, whatever
  the subtree holds, and visits nothing below the node: inline code \<^verbatim>\<open>`#123`\<close> passes
  through unchanged, and the output for \<^verbatim>\<open>fixed #123\<close>, whose link text is now inside a
  Link node, is returned unchanged by a second run.
\<close>

lemma walker_skips_code_and_link:
  "walk l src prev (CodeSpanNode cs) links = Inr links
   \<and> walk l src prev (LinkNode cs) links = Inr links
   \<and> Link exampleSession (paragraphDoc [CodeSpanNode [TextNode 1 5]]) ''`#123`'' = Inr ''`#123`''
   \<and> Link exampleSession (paragraphDoc [TextNode 0 6, LinkNode [TextNode 7 11]])
          ''fixed [#123](https://github.com/o/r/issues/123)''
        = Inr ''fixed [#123](https://github.com/o/r/issues/123)''"
proof -
  have a: "Link exampleSession (paragraphDoc [CodeSpanNode [TextNode 1 5]]) ''`#123`''
             = Inr ''`#123`''"
    by code_simp
  have c: "Link exampleSession (paragraphDoc [TextNode 0 6, LinkNode [TextNode 7 11]])
             ''fixed [#123](https://github.com/o/r/issues/123)''
           = Inr ''fixed [#123](https://github.com/o/r/issues/123)''"
    by code_simp
  from a c show ?thesis by simp
qed

text \<open>
  Claim C7 (fails on the code). A span can still cover bytes of a CodeSpan: \<^verbatim>\<open>linkURL\<close>
  does not take the position of the AutoLink from the node, it searches the buffer for the
  bytes of the URL, from the end of the previous Text sibling or, when the AutoLink is a
  first child, from the start of the buffer (lines 334-356). In
  \<^verbatim>\<open>`https://github.com/o/r/pull/1` **https://github.com/o/r/pull/1**\<close> the AutoLink is
  the only child of the emphasis and stands at offset 34; the search from offset 0 finds
  the same bytes at offset 1, inside the inline code. The span \<open>[1, 30)\<close> is recorded
  and the inline code is rewritten, while the AutoLink itself stays as it was.
\<close>

theorem C7_inline_code_rewritten:
  "walk exampleSession ''`https://github.com/o/r/pull/1` **https://github.com/o/r/pull/1**''
     None
     (paragraphDoc [CodeSpanNode [TextNode 1 30], TextNode 31 32,
                    OtherNode [AutoLinkNode ''https://github.com/o/r/pull/1'' 34]]) []
     = Inr [\<lparr>link_start = 1, link_end = 30,
             link_text = ''[#1](https://github.com/o/r/pull/1)''\<rparr>]
   \<and> Link exampleSession
       (paragraphDoc [CodeSpanNode [TextNode 1 30], TextNode 31 32,
                      OtherNode [AutoLinkNode ''https://github.com/o/r/pull/1'' 34]])
       ''`https://github.com/o/r/pull/1` **https://github.com/o/r/pull/1**''
     = Inr ''`[#1](https://github.com/o/r/pull/1)` **https://github.com/o/r/pull/1**''"
  by code_simp

subsection \<open>C8: spans of the two passes can overlap\<close>

text \<open>
  Claim C8 (fails on the code). For the paragraph \<^verbatim>\<open>GH-\<close> followed by forty digits the
  primary pass records the commit span \<open>[3, 43)\<close> and the external pass the span
  \<open>[0, 43)\<close> of the default pattern: the two overlap, and the rebuilder, after the span
  that starts at 0, slices \<^verbatim>\<open>l.src[43:3]\<close>, a run-time panic.
\<close>

theorem C8_overlapping_spans_panic:
  "map (\<lambda>r. (link_start r, link_end r))
       (case walk exampleSession ''GH-0123456789012345678901234567890123456789'' None
               (plainDoc 43) [] of Inl p \<Rightarrow> [] | Inr links \<Rightarrow> links)
     = [(3, 43), (0, 43)]
   \<and> Link exampleSession (plainDoc 43) ''GH-0123456789012345678901234567890123456789''
       = Inl SliceBounds"
  by code_simp

subsection \<open>C9: the type assertion on the previous sibling\<close>

text \<open>
  Claim C9 (fails on the code). For \<^verbatim>\<open>`x`<https://example.com>\<close> the AutoLink's
  previous sibling is a CodeSpan, and the assertion \<^verbatim>\<open>p.(*ast.Text)\<close> of \<^verbatim>\<open>linkURL\<close>
  panics before the URL is looked at.
\<close>

theorem C9_previous_sibling_assertion_panics:
  "Link exampleSession
     (paragraphDoc [CodeSpanNode [TextNode 1 2], AutoLinkNode ''https://example.com'' 4])
     ''`x`<https://example.com>''
   = Inl TypeAssertion"
  by code_simp

subsection \<open>C10: the underscore before a reference\<close>

text \<open>
  Claim C10, as amended. The byte classifier takes \<open>_\<close> for a boundary and the word
  boundary of the external patterns takes it for a word character. So a match of an
  external pattern with a literal prefix that starts with a word character (as
  \<^verbatim>\<open>GH-\<close>) never starts right after a \<open>_\<close> of the examined window, while a builtin
  reference after a \<open>_\<close> passes its boundary test: \<^verbatim>\<open>_#9\<close> is linked. But a pattern
  sees the examined window only: what \<open>linkExtRef\<close> returns depends on the buffer through
  the bytes of the window alone, and a match at the first byte of the window is recorded
  whatever byte precedes the window in the buffer. In \<^verbatim>\<open>_GH-9\<close> the parser makes the
  \<open>_\<close> a Text node of its own, the second Text node starts at \<^verbatim>\<open>GH-9\<close>, and the
  reference is linked.
\<close>

theorem C10_underscore_in_window:
  "isBoundary (CHR ''_'') \<and> isWordChar (CHR ''_'')
   \<and> (literalExt x \<and> FindIndex x w = Some (s, e) \<and> ext_prefix x \<noteq> []
        \<and> isWordChar (hd (ext_prefix x)) \<and> 0 < s
        \<longrightarrow> \<not> isWordChar (w ! (s - 1)) \<and> w ! (s - 1) \<noteq> CHR ''_'')
   \<and> (0 < bgn \<and> bgn \<le> length src \<and> src ! (bgn - 1) = CHR ''_''
        \<longrightarrow> isBoundaryAt src (int bgn - 1))
   \<and> (list_all literalExt (ext l) \<and> sliceBytes src' start fin = sliceBytes src start fin
        \<longrightarrow> linkExtRef l src' links start fin = linkExtRef l src links start fin)
   \<and> (list_all literalExt (pre @ [x]) \<and> sliceBytes src start fin = Inr w
        \<and> list_all (\<lambda>y. FindIndex y w = None) pre \<and> FindIndex x w = Some (0, e)
        \<longrightarrow> linkExtRef (l\<lparr>ext := pre @ x # post\<rparr>) src links start fin =
              Inr (links @
                     [\<lparr>link_start = start, link_end = start + e,
                       link_text = ''['' @ ext_prefix x @ capturedSuffix x w 0 e @ '']('' @
                         replaceAll (ext_url x) ''<num>'' (capturedSuffix x w 0 e) @ '')''\<rparr>],
                   start + e))
   \<and> FindIndex ghRef ''_GH-9'' = None
   \<and> Link exampleSession (paragraphDoc [TextNode 0 1, TextNode 1 3]) ''_#9''
       = Inr ''_[#9](https://github.com/o/r/issues/9)''
   \<and> Link exampleSession (paragraphDoc [TextNode 0 1, TextNode 1 5]) ''_GH-9''
       = Inr ''_[GH-9](https://github.com/o/r/issues/9)''"
proof -
  have u: "isBoundary (CHR ''_'')" "isWordChar (CHR ''_'')"
    by (simp_all add: isBoundary_def isWordChar_def isDigit_def isLower_def isUpper_def byteLE_def)
  have re: "literalExt x \<and> FindIndex x w = Some (s, e) \<and> ext_prefix x \<noteq> []
        \<and> isWordChar (hd (ext_prefix x)) \<and> 0 < s
        \<longrightarrow> \<not> isWordChar (w ! (s - 1)) \<and> w ! (s - 1) \<noteq> CHR ''_''"
  proof (intro impI, elim conjE)
    assume f: "FindIndex x w = Some (s, e)" and ne: "ext_prefix x \<noteq> []"
      and hw: "isWordChar (hd (ext_prefix x))" and pos: "0 < s"
    from FindIndex_matchAt [OF f] have m: "matchAt x w s = Some e" .
    from matchAt_prefix_head [OF m ne] hw have "s < length w \<and> isWordChar (w ! s)" by simp
    with matchAt_props(1) [OF m] pos have "\<not> isWordChar (w ! (s - 1))"
      by (simp add: wordBoundary_def)
    with u(2) show "\<not> isWordChar (w ! (s - 1)) \<and> w ! (s - 1) \<noteq> CHR ''_''" by auto
  qed
  have bi: "0 < bgn \<and> bgn \<le> length src \<and> src ! (bgn - 1) = CHR ''_''
        \<longrightarrow> isBoundaryAt src (int bgn - 1)"
  proof (intro impI, elim conjE)
    assume a: "0 < bgn" "bgn \<le> length src" "src ! (bgn - 1) = CHR ''_''"
    from a(1) have "nat (int bgn - 1) = bgn - 1" by simp
    with a u(1) show "isBoundaryAt src (int bgn - 1)" by (simp add: isBoundaryAt_def)
  qed
  have win: "list_all literalExt (ext l) \<and> sliceBytes src' start fin = sliceBytes src start fin
        \<longrightarrow> linkExtRef l src' links start fin = linkExtRef l src links start fin"
    using linkExtRef_window [of src' start fin src l links] by simp
  have first: "list_all literalExt (pre @ [x]) \<and> sliceBytes src start fin = Inr w
        \<and> list_all (\<lambda>y. FindIndex y w = None) pre \<and> FindIndex x w = Some (0, e)
        \<longrightarrow> linkExtRef (l\<lparr>ext := pre @ x # post\<rparr>) src links start fin =
              Inr (links @
                     [\<lparr>link_start = start, link_end = start + e,
                       link_text = ''['' @ ext_prefix x @ capturedSuffix x w 0 e @ '']('' @
                         replaceAll (ext_url x) ''<num>'' (capturedSuffix x w 0 e) @ '')''\<rparr>],
                   start + e)"
  proof (intro impI, elim conjE)
    assume sl: "sliceBytes src start fin = Inr w"
      and pre: "list_all (\<lambda>y. FindIndex y w = None) pre" and f: "FindIndex x w = Some (0, e)"
    have "linkExtRef (l\<lparr>ext := pre @ x # post\<rparr>) src links start fin =
            linkExtRefPats (x # post) w links start fin"
      using sl pre by (simp add: linkExtRef_def linkExtRefPats_skip)
    with linkExtRefPats_hit [OF f, of post links start fin]
    show "linkExtRef (l\<lparr>ext := pre @ x # post\<rparr>) src links start fin =
              Inr (links @
                     [\<lparr>link_start = start, link_end = start + e,
                       link_text = ''['' @ ext_prefix x @ capturedSuffix x w 0 e @ '']('' @
                         replaceAll (ext_url x) ''<num>'' (capturedSuffix x w 0 e) @ '')''\<rparr>],
                   start + e)"
      by simp
  qed
  have e0: "FindIndex ghRef ''_GH-9'' = None" by code_simp
  have e1: "Link exampleSession (paragraphDoc [TextNode 0 1, TextNode 1 3]) ''_#9''
       = Inr ''_[#9](https://github.com/o/r/issues/9)''"
    by code_simp
  have e2: "Link exampleSession (paragraphDoc [TextNode 0 1, TextNode 1 5]) ''_GH-9''
       = Inr ''_[GH-9](https://github.com/o/r/issues/9)''"
    by code_simp
  from u re bi win first e0 e1 e2 show ?thesis by blast
qed

theorem C10_underscore_in_window_witness:
  "literalExt ghRef \<and> FindIndex ghRef ''_ GH-9'' = Some (2, 6) \<and> ext_prefix ghRef \<noteq> []
   \<and> isWordChar (hd (ext_prefix ghRef)) \<and> (0::nat) < 2
   \<and> \<not> isWordChar (''_ GH-9'' ! (2 - 1)) \<and> ''_ GH-9'' ! (2 - 1) \<noteq> CHR ''_''
   \<and> (0::nat) < 1 \<and> 1 \<le> length ''_#9'' \<and> ''_#9'' ! (1 - 1) = CHR ''_''
   \<and> isBoundaryAt ''_#9'' (int 1 - 1)
   \<and> list_all literalExt (ext exampleSession)
   \<and> sliceBytes ''_GH-9'' 1 5 = sliceBytes '' GH-9'' 1 5
   \<and> linkExtRef exampleSession ''_GH-9'' [] 1 5 = linkExtRef exampleSession '' GH-9'' [] 1 5
   \<and> list_all literalExt ([] @ [ghRef]) \<and> sliceBytes ''_GH-9'' 1 5 = Inr ''GH-9''
   \<and> list_all (\<lambda>y. FindIndex y ''GH-9'' = None) [] \<and> FindIndex ghRef ''GH-9'' = Some (0, 4)
   \<and> linkExtRef (exampleSession\<lparr>ext := [] @ ghRef # []\<rparr>) ''_GH-9'' [] 1 5 =
       Inr ([\<lparr>link_start = 1, link_end = 5,
              link_text = ''[GH-9](https://github.com/o/r/issues/9)''\<rparr>], 5)"
proof -
  have h0: "literalExt ghRef" by code_simp
  have h1: "FindIndex ghRef ''_ GH-9'' = Some (2, 6)" by code_simp
  have h2: "ext_prefix ghRef \<noteq> []" by (simp add: ghRef_def)
  have h3: "isWordChar (hd (ext_prefix ghRef))" by code_simp
  have h4: "''_#9'' ! (1 - 1) = CHR ''_''" by simp
  have h5: "sliceBytes ''_GH-9'' 1 5 = sliceBytes '' GH-9'' 1 5" by code_simp
  have h12: "list_all literalExt (ext exampleSession)" by code_simp
  have h6: "list_all literalExt ([] @ [ghRef])" using h0 by simp
  have h7: "sliceBytes ''_GH-9'' 1 5 = Inr ''GH-9''" by code_simp
  have h8: "FindIndex ghRef ''GH-9'' = Some (0, 4)" by code_simp
  have h9: "capturedSuffix ghRef ''GH-9'' 0 4 = ''9''" by code_simp
  have h10: "replaceAll (ext_url ghRef) ''<num>'' ''9'' = ''https://github.com/o/r/issues/9''"
    by code_simp
  have h11: "ext_prefix ghRef = ''GH-''" by (simp add: ghRef_def)
  note t = C10_underscore_in_window [where x = ghRef and w = "''_ GH-9''" and s = 2 and e = 6
      and bgn = 1 and src = "''_#9''" and src' = "''_GH-9''" and start = 1 and fin = 5
      and l = exampleSession and links = "[]"]
  note t2 = C10_underscore_in_window [where x = ghRef and w = "''GH-9''" and e = 4
      and src = "''_GH-9''" and start = 1 and fin = 5 and pre = "[]" and post = "[]"
      and l = exampleSession and links = "[]"]
  from t h0 h1 h2 h3 h4
  have a: "\<not> isWordChar (''_ GH-9'' ! (2 - 1)) \<and> ''_ GH-9'' ! (2 - 1) \<noteq> CHR ''_''"
    and b: "isBoundaryAt ''_#9'' (int 1 - 1)"
    by simp_all
  have c: "linkExtRef exampleSession ''_GH-9'' [] 1 5 = linkExtRef exampleSession '' GH-9'' [] 1 5"
    using C10_underscore_in_window [where src' = "''_GH-9''" and src = "'' GH-9''" and start = 1
        and fin = 5 and l = exampleSession and links = "[]"] h5 h12
    by simp
  from t2 h6 h7 h8
  have d: "linkExtRef (exampleSession\<lparr>ext := [] @ ghRef # []\<rparr>) ''_GH-9'' [] 1 5 =
       Inr ([\<lparr>link_start = 1, link_end = 5,
              link_text = ''[GH-9](https://github.com/o/r/issues/9)''\<rparr>], 5)"
    by (simp add: h9 h10 h11)
  from h0 h1 h2 h3 h4 a b h12 h5 c h6 h7 h8 d show ?thesis by simp
qed

text \<open>
  Claim C10 as stated fails at its own example. The \<open>_\<close> of \<^verbatim>\<open>_GH-9\<close> opens no
  emphasis and the parser returns it as a Text node of its own; the external pass then
  examines the window \<^verbatim>\<open>GH-9\<close> of the second Text node, where the prefix stands at a
  word boundary, and the reference is linked.
\<close>

theorem C10_underscore_counterexample:
  "linkExtRef exampleSession ''_GH-9'' [] 1 5 =
     Inr ([\<lparr>link_start = 1, link_end = 5,
            link_text = ''[GH-9](https://github.com/o/r/issues/9)''\<rparr>], 5)
   \<and> Link exampleSession (paragraphDoc [TextNode 0 1, TextNode 1 5]) ''_GH-9''
       = Inr ''_[GH-9](https://github.com/o/r/issues/9)''
   \<and> Link exampleSession (paragraphDoc [TextNode 0 1, TextNode 1 5]) ''_GH-9''
       \<noteq> Inr ''_GH-9''"
  by code_simp

end
